theory Spec2Isabelle
  imports Main "HOL-Library.Word"
begin

section \<open>JavaScript strings\<close>

text \<open>
  A JavaScript string is a sequence of UTF-16 code units, and every string operation the
  scripts use (\<^verbatim>\<open>trim\<close>, \<^verbatim>\<open>startsWith\<close>, \<^verbatim>\<open>indexOf\<close>, \<^verbatim>\<open>lastIndexOf\<close>, \<^verbatim>\<open>substring\<close>,
  \<^verbatim>\<open>split\<close>, and the regular expressions, none of which has the \<^verbatim>\<open>u\<close> flag) works on code
  units. A string is therefore a list of 16-bit words.
\<close>

type_synonym code_unit = "16 word"

type_synonym jstring = "code_unit list"

text \<open>A string literal of the source, all of whose characters are ASCII: \<^verbatim>\<open>'abc'\<close> is
  \<open>str ''abc''\<close>.\<close>

definition str :: "string \<Rightarrow> jstring" where
  "str s = map of_char s"

abbreviation comma :: code_unit where
  "comma \<equiv> 0x2C"

text \<open>
  The white space of \<^verbatim>\<open>String.prototype.trim\<close> and of the regular expression class \<^verbatim>\<open>\s\<close>
  is the same set, WhiteSpace and LineTerminator of the language: TAB, LF, VT, FF, CR, SPACE,
  NBSP, U+1680, U+2000 to U+200A, U+2028, U+2029, U+202F, U+205F, U+3000 and U+FEFF.
\<close>

definition is_ws :: "code_unit \<Rightarrow> bool" where
  "is_ws c = (c \<in> set [0x09, 0x0A, 0x0B, 0x0C, 0x0D, 0x20, 0xA0, 0x1680,
      0x2000, 0x2001, 0x2002, 0x2003, 0x2004, 0x2005, 0x2006, 0x2007, 0x2008, 0x2009, 0x200A,
      0x2028, 0x2029, 0x202F, 0x205F, 0x3000, 0xFEFF])"

text \<open>The line terminators, which the regular expression atom \<^verbatim>\<open>.\<close> refuses: LF, CR, U+2028
  and U+2029.\<close>

definition is_line_terminator :: "code_unit \<Rightarrow> bool" where
  "is_line_terminator c = (c \<in> set [0x0A, 0x0D, 0x2028, 0x2029])"

text \<open>\<^verbatim>\<open>s.trim()\<close>\<close>

definition trim :: "jstring \<Rightarrow> jstring" where
  "trim s = rev (dropWhile is_ws (rev (dropWhile is_ws s)))"

text \<open>\<^verbatim>\<open>s.startsWith(p)\<close>\<close>

definition startsWith :: "jstring \<Rightarrow> jstring \<Rightarrow> bool" where
  "startsWith s p = (take (length p) s = p)"

text \<open>\<^verbatim>\<open>s.indexOf(c)\<close> and \<^verbatim>\<open>s.lastIndexOf(c)\<close> for a one-character needle: the index of
  the first (last) occurrence, or -1.\<close>

primrec indexOf :: "jstring \<Rightarrow> code_unit \<Rightarrow> int" where
  "indexOf [] c = - 1"
| "indexOf (x # xs) c =
     (if x = c then 0 else (let r = indexOf xs c in if r = - 1 then - 1 else r + 1))"

primrec lastIndexOf :: "jstring \<Rightarrow> code_unit \<Rightarrow> int" where
  "lastIndexOf [] c = - 1"
| "lastIndexOf (x # xs) c =
     (let r = lastIndexOf xs c in
      if r \<noteq> - 1 then r + 1 else if x = c then 0 else - 1)"

text \<open>\<^verbatim>\<open>s.substring(a, b)\<close> and \<^verbatim>\<open>s.substring(a)\<close>: both indices are clamped to the string, and
  the smaller one is the start.\<close>

definition clamp_index :: "jstring \<Rightarrow> int \<Rightarrow> nat" where
  "clamp_index s i = min (nat i) (length s)"

definition substring :: "jstring \<Rightarrow> int \<Rightarrow> int \<Rightarrow> jstring" where
  "substring s a b =
     (let lo = min (clamp_index s a) (clamp_index s b);
          hi = max (clamp_index s a) (clamp_index s b)
      in take (hi - lo) (drop lo s))"

definition substring_from :: "jstring \<Rightarrow> int \<Rightarrow> jstring" where
  "substring_from s a = drop (clamp_index s a) s"

text \<open>\<^verbatim>\<open>s.split('\n')\<close>: the pieces between line feeds; never an empty array.\<close>

fun split_nl :: "jstring \<Rightarrow> jstring list" where
  "split_nl [] = [[]]"
| "split_nl (c # cs) =
     (if c = 0x0A then [] # split_nl cs
      else (case split_nl cs of [] \<Rightarrow> [[c]] | l # ls \<Rightarrow> (c # l) # ls))"

text \<open>\<^verbatim>\<open>xs.join('\n')\<close>\<close>

fun join_nl :: "jstring list \<Rightarrow> jstring" where
  "join_nl [] = []"
| "join_nl [l] = l"
| "join_nl (l # m # ls) = l @ 0x0A # join_nl (m # ls)"

text \<open>\<^verbatim>\<open>s.replace(/\s+/g, ' ')\<close>: every maximal run of white space becomes one space.\<close>

function collapse_ws :: "jstring \<Rightarrow> jstring" where
  "collapse_ws [] = []"
| "collapse_ws (c # cs) =
     (if is_ws c then 0x20 # collapse_ws (dropWhile is_ws cs) else c # collapse_ws cs)"
  by pat_completeness auto
termination
  by (relation "measure length") (auto simp: length_dropWhile_le less_Suc_eq_le)

text \<open>Decimal rendering of a non-negative integer in a template literal.\<close>

definition digit_char :: "nat \<Rightarrow> code_unit" where
  "digit_char d = str ''0123456789'' ! d"

function show_nat :: "nat \<Rightarrow> jstring" where
  "show_nat n = (if n < 10 then [digit_char n] else show_nat (n div 10) @ [digit_char (n mod 10)])"
  by pat_completeness auto
termination
  by (relation "measure id") auto

declare show_nat.simps [simp del]

section \<open>The playlist parser (check\_m3u\_links.js, parseM3U)\<close>

record stream_entry =
  url :: jstring
  title :: jstring
  groupTitle :: jstring

text \<open>The pending metadata \<^verbatim>\<open>currentExtinf\<close>; \<^verbatim>\<open>null\<close> is \<^term>\<open>None\<close>.\<close>

record extinf =
  ext_title :: jstring
  ext_groupTitle :: jstring

text \<open>\<^verbatim>\<open>line.match(/^#EXTINF:(.+)$/)\<close>: the prefix, then one or more characters none of which
  is a line terminator, up to the end of the string. The result is the captured group.\<close>

definition match_extinf :: "jstring \<Rightarrow> jstring option" where
  "match_extinf line =
     (let rest = drop 8 line in
      if take 8 line = str ''#EXTINF:'' \<and> rest \<noteq> [] \<and> \<not> list_ex is_line_terminator rest
      then Some rest else None)"

text \<open>\<^verbatim>\<open>s.match(/group-title="([^"]+)"/)\<close>: at the leftmost position where the literal
  \<^verbatim>\<open>group-title="\<close> is followed by one or more characters other than a double quote and
  then a double quote. The result is the captured group.\<close>

definition dquote :: code_unit where
  "dquote = 0x22"

fun match_group_title :: "jstring \<Rightarrow> jstring option" where
  "match_group_title [] = None"
| "match_group_title (c # cs) =
     (let s = c # cs; after = drop 13 s;
          grp = takeWhile (\<lambda>x. x \<noteq> dquote) after;
          rest = dropWhile (\<lambda>x. x \<noteq> dquote) after
      in if take 13 s = str ''group-title='' @ [dquote] \<and> grp \<noteq> [] \<and> rest \<noteq> []
         then Some grp else match_group_title cs)"

text \<open>The body of the \<^verbatim>\<open>#EXTINF:\<close> branch of the loop: the value assigned to
  \<^verbatim>\<open>currentExtinf\<close>.\<close>

definition parse_extinf :: "jstring \<Rightarrow> extinf" where
  "parse_extinf line =
     (case match_extinf line of
        Some extinfContent \<Rightarrow>
          (let lastCommaIndex = lastIndexOf extinfContent comma in
           if lastCommaIndex \<noteq> - 1 then
             (let attributesPart = trim (substring extinfContent 0 lastCommaIndex);
                  title = trim (substring_from extinfContent (lastCommaIndex + 1));
                  groupMatch = match_group_title attributesPart;
                  groupTitle = (case groupMatch of Some g \<Rightarrow> g | None \<Rightarrow> [])
              in \<lparr>ext_title = title, ext_groupTitle = groupTitle\<rparr>)
           else \<lparr>ext_title = extinfContent, ext_groupTitle = []\<rparr>)
      | None \<Rightarrow> \<lparr>ext_title = str ''Unknown'', ext_groupTitle = []\<rparr>)"

text \<open>The loop over the lines. \<^verbatim>\<open>isValidUrl\<close> wraps the platform's URL parser, which is not
  part of the repository; it is a parameter.\<close>

fun parse_loop ::
  "(jstring \<Rightarrow> bool) \<Rightarrow> jstring list \<Rightarrow> extinf option \<Rightarrow> stream_entry list \<Rightarrow> stream_entry list"
where
  "parse_loop isValidUrl [] currentExtinf entries = entries"
| "parse_loop isValidUrl (line # rest) currentExtinf entries =
     (if startsWith line (str ''#EXTINF:'') then
        parse_loop isValidUrl rest (Some (parse_extinf line)) entries
      else if \<not> startsWith line (str ''#'') \<and> isValidUrl line then
        (let entry = \<lparr>url = line,
                       title = (case currentExtinf of Some e \<Rightarrow> ext_title e | None \<Rightarrow> str ''Unknown''),
                       groupTitle = (case currentExtinf of Some e \<Rightarrow> ext_groupTitle e | None \<Rightarrow> [])\<rparr>
         in parse_loop isValidUrl rest None (entries @ [entry]))
      else parse_loop isValidUrl rest currentExtinf entries)"

text \<open>\<^verbatim>\<open>content.split('\n').map(line => line.trim()).filter(line => line)\<close>\<close>

definition content_lines :: "jstring \<Rightarrow> jstring list" where
  "content_lines content = filter (\<lambda>line. line \<noteq> []) (map trim (split_nl content))"

definition parse_text :: "(jstring \<Rightarrow> bool) \<Rightarrow> jstring \<Rightarrow> stream_entry list" where
  "parse_text isValidUrl content = parse_loop isValidUrl (content_lines content) None []"

text \<open>The file system as the script sees it: a path is missing, exists but cannot be read
  (the read throws with a message), or holds text.\<close>

datatype fs_entry = Missing | Unreadable jstring | File jstring

type_synonym filesystem = "jstring \<Rightarrow> fs_entry"

text \<open>parseM3U: a thrown \<^verbatim>\<open>Error\<close> is \<^term>\<open>Inl\<close> of its message.\<close>

definition parseM3U :: "(jstring \<Rightarrow> bool) \<Rightarrow> filesystem \<Rightarrow> jstring \<Rightarrow> jstring + stream_entry list" where
  "parseM3U isValidUrl fs filepath =
     (case fs filepath of
        Missing \<Rightarrow> Inl (filepath @ str '' not found!'')
      | Unreadable msg \<Rightarrow> Inl msg
      | File content \<Rightarrow> Inr (parse_text isValidUrl content))"

text \<open>A line that bears a URL: not a comment, and accepted by the URL parser.\<close>

definition is_url_line :: "(jstring \<Rightarrow> bool) \<Rightarrow> jstring \<Rightarrow> bool" where
  "is_url_line isValidUrl line = (\<not> startsWith line (str ''#'') \<and> isValidUrl line)"

section \<open>The prober (check\_m3u\_links.js, checkUrl, makeRequest, makeGetRequest)\<close>

text \<open>The constants set in the constructor of \<^verbatim>\<open>M3UChecker\<close>.\<close>

definition M3U_FILE :: jstring where
  "M3U_FILE = str ''free.m3u''"

definition REQUEST_TIMEOUT :: nat where
  "REQUEST_TIMEOUT = 10000"

definition MAX_RETRIES :: nat where
  "MAX_RETRIES = 2"

definition DELAY_BETWEEN_REQUESTS :: nat where
  "DELAY_BETWEEN_REQUESTS = 1000"

definition USER_AGENT :: jstring where
  "USER_AGENT = str ''M3U-Checker/1.0''"

text \<open>
  A request as handed to \<^verbatim>\<open>lib.request\<close>. Host, port and path are read off the URL by the
  platform's URL parser; the request keeps the URL itself.
\<close>

datatype http_method = HEAD | GET

record http_request =
  req_method :: http_method
  req_url :: jstring
  req_timeout :: nat
  req_headers :: "(jstring \<times> jstring) list"

text \<open>
  What the network does to one request, as the promise around it sees it: a response with
  a status code arrives (for the GET request: arrives and is drained to its end), the
  \<^verbatim>\<open>timeout\<close> event fires first, or the \<^verbatim>\<open>error\<close> event fires first with an error that has a
  \<^verbatim>\<open>code\<close> (possibly undefined) and a \<^verbatim>\<open>message\<close>.
\<close>

datatype net_event = Response nat | TimedOut | Failed "jstring option" jstring

text \<open>The injected network: the outcome of the \<open>k\<close>-th request the process issues.\<close>

type_synonym network = "nat \<Rightarrow> net_event"

text \<open>A JavaScript \<^verbatim>\<open>Error\<close> value: its message and its code.\<close>

record js_error =
  err_message :: jstring
  err_code :: "jstring option"

definition new_Error :: "jstring \<Rightarrow> js_error" where
  "new_Error msg = \<lparr>err_message = msg, err_code = None\<rparr>"

text \<open>One constructor per \<^verbatim>\<open>console.log\<close> or \<^verbatim>\<open>console.error\<close> call of the script, carrying the
  values the call interpolates. The rendering (emoji, padding, \<^verbatim>\<open>toFixed\<close>) is not modelled.\<close>

datatype log_event =
    LogTitle | LogTitleRule
  | LogParsing jstring
  | LogFound nat
  | LogNoStreams
  | LogChecking nat nat jstring
  | LogLive nat
  | LogDead jstring
  | LogDeadFound | LogDeadFoundTitle jstring | LogDeadFoundGroup jstring | LogDeadFoundUrl jstring
  | LogDeadFoundError jstring | LogDeadFoundStatus "nat option"
  | LogCompleted | LogCompletedRule
  | LogLiveCount nat
  | LogDeadCount nat
  | LogSuccessRate nat nat
  | LogSummary | LogSummaryRule
  | LogSummaryItem nat jstring | LogSummaryGroup jstring | LogSummaryUrl jstring
  | LogSummaryError jstring | LogSummaryBlank
  | LogAllLive
  | LogErrorDuringCheck jstring

text \<open>The effects of the process so far: the requests issued (oldest first), the sleeps taken
  (milliseconds) and the console output.\<close>

record io =
  sent :: "http_request list"
  slept :: "nat list"
  console :: "log_event list"

definition io_start :: io where
  "io_start = \<lparr>sent = [], slept = [], console = []\<rparr>"

definition send :: "http_request \<Rightarrow> network \<Rightarrow> io \<Rightarrow> net_event \<times> io" where
  "send req net s = (net (length (sent s)), s\<lparr>sent := sent s @ [req]\<rparr>)"

definition sleep :: "nat \<Rightarrow> io \<Rightarrow> io" where
  "sleep ms s = s\<lparr>slept := slept s @ [ms]\<rparr>"

definition log :: "log_event list \<Rightarrow> io \<Rightarrow> io" where
  "log evs s = s\<lparr>console := console s @ evs\<rparr>"

definition timeout_message :: jstring where
  "timeout_message = str ''Timeout after '' @ show_nat REQUEST_TIMEOUT @ str ''ms''"

definition head_request :: "jstring \<Rightarrow> http_request" where
  "head_request u =
     \<lparr>req_method = HEAD, req_url = u, req_timeout = REQUEST_TIMEOUT,
      req_headers = [((str ''User-Agent''), USER_AGENT)]\<rparr>"

definition range_request :: "jstring \<Rightarrow> http_request" where
  "range_request u =
     \<lparr>req_method = GET, req_url = u, req_timeout = REQUEST_TIMEOUT,
      req_headers = [((str ''User-Agent''), USER_AGENT), ((str ''Range''), str ''bytes=0-1024'')]\<rparr>"

text \<open>makeGetRequest: the promise resolves with the status code (\<^term>\<open>Inr\<close>) or rejects with an
  error (\<^term>\<open>Inl\<close>). The \<^verbatim>\<open>error\<close> handler rejects with the error it is given.\<close>

definition makeGetRequest :: "jstring \<Rightarrow> network \<Rightarrow> io \<Rightarrow> (js_error + nat) \<times> io" where
  "makeGetRequest u net s =
     (case send (range_request u) net s of
        (Response status, s') \<Rightarrow> (Inr status, s')
      | (TimedOut, s') \<Rightarrow> (Inl (new_Error timeout_message), s')
      | (Failed c msg, s') \<Rightarrow> (Inl \<lparr>err_message = msg, err_code = c\<rparr>, s'))"

text \<open>makeRequest: the HEAD request; a 405 hands the promise over to makeGetRequest.\<close>

definition makeRequest :: "jstring \<Rightarrow> network \<Rightarrow> io \<Rightarrow> (js_error + nat) \<times> io" where
  "makeRequest u net s =
     (case send (head_request u) net s of
        (Response status, s') \<Rightarrow>
          (if status = 405 then makeGetRequest u net s' else (Inr status, s'))
      | (TimedOut, s') \<Rightarrow> (Inl (new_Error timeout_message), s')
      | (Failed c msg, s') \<Rightarrow>
          (if c = Some (str ''ECONNREFUSED'') then (Inl (new_Error (str ''Connection refused'')), s')
           else if c = Some (str ''ENOTFOUND'') then (Inl (new_Error (str ''Host not found'')), s')
           else if c = Some (str ''ETIMEDOUT'') then (Inl (new_Error (str ''Connection timeout'')), s')
           else (Inl (new_Error (str ''Connection error: '' @ msg)), s')))"

record probe_result =
  isAlive :: bool
  error :: jstring
  statusCode :: nat

text \<open>checkUrl: the loop over \<^verbatim>\<open>attempt\<close>. A loop that ends without a \<^verbatim>\<open>return\<close> makes the
  function return \<^verbatim>\<open>undefined\<close>, which is \<^term>\<open>None\<close>.\<close>

function checkUrl_loop :: "jstring \<Rightarrow> network \<Rightarrow> nat \<Rightarrow> io \<Rightarrow> probe_result option \<times> io" where
  "checkUrl_loop u net attempt s =
     (if attempt < MAX_RETRIES then
        (case makeRequest u net s of
           (Inr status, s') \<Rightarrow>
             (if status < 400
              then (Some \<lparr>isAlive = True, error = [], statusCode = status\<rparr>, s')
              else (Some \<lparr>isAlive = False, error = str ''HTTP '' @ show_nat status,
                          statusCode = status\<rparr>, s'))
         | (Inl e, s') \<Rightarrow>
             (if int attempt = int MAX_RETRIES - 1
              then (Some \<lparr>isAlive = False, error = err_message e, statusCode = 0\<rparr>, s')
              else checkUrl_loop u net (attempt + 1)
                     (sleep (DELAY_BETWEEN_REQUESTS * (attempt + 1)) s')))
      else (None, s))"
  by pat_completeness auto
termination
  by (relation "measure (\<lambda>(u, net, attempt, s). MAX_RETRIES - attempt)") auto

declare checkUrl_loop.simps [simp del]

definition checkUrl :: "jstring \<Rightarrow> network \<Rightarrow> io \<Rightarrow> probe_result option \<times> io" where
  "checkUrl u net s = checkUrl_loop u net 0 s"

text \<open>The message chosen by the \<^verbatim>\<open>error\<close> handler of makeRequest, and the two results that
  checkUrl returns for an attempt that resolved with a status; both are used to state facts
  about the functions above.\<close>

definition classify :: "jstring option \<Rightarrow> jstring \<Rightarrow> jstring" where
  "classify c msg = (if c = Some (str ''ECONNREFUSED'') then str ''Connection refused''
           else if c = Some (str ''ENOTFOUND'') then str ''Host not found''
           else if c = Some (str ''ETIMEDOUT'') then str ''Connection timeout''
           else str ''Connection error: '' @ msg)"

definition verdict :: "nat \<Rightarrow> probe_result" where
  "verdict st = (if st < 400 then \<lparr>isAlive = True, error = [], statusCode = st\<rparr>
      else \<lparr>isAlive = False, error = str ''HTTP '' @ show_nat st, statusCode = st\<rparr>)"

text \<open>The requests a run adds to the log, and the attempts among them: every call of
  makeRequest issues exactly one HEAD request, its first.\<close>

definition is_head :: "http_request \<Rightarrow> bool" where
  "is_head q = (req_method q = HEAD)"

section \<open>The checker (check\_m3u\_links.js, logDeadLink, runCheck)\<close>

definition logDeadLink :: "stream_entry \<Rightarrow> jstring \<Rightarrow> nat \<Rightarrow> io \<Rightarrow> io" where
  "logDeadLink entry err status s =
     log ([LogDeadFound, LogDeadFoundTitle (title entry)]
          @ (if groupTitle entry \<noteq> [] then [LogDeadFoundGroup (groupTitle entry)] else [])
          @ [LogDeadFoundUrl (url entry), LogDeadFoundError err,
             LogDeadFoundStatus (if status \<noteq> 0 then Some status else None)]) s"

record dead_stream =
  dead_entry :: stream_entry
  dead_error :: jstring
  dead_statusCode :: nat

text \<open>The loop of runCheck over the entries, from index \<open>i\<close> on; \<open>n_entries\<close> is
  \<^verbatim>\<open>entries.length\<close>. Reading \<^verbatim>\<open>result.isAlive\<close> of \<^verbatim>\<open>undefined\<close> throws a TypeError, which is
  \<^term>\<open>Inl\<close> of its message.\<close>

fun check_entries ::
  "network \<Rightarrow> nat \<Rightarrow> nat \<Rightarrow> stream_entry list \<Rightarrow> dead_stream list \<Rightarrow> nat \<Rightarrow> io
     \<Rightarrow> (jstring + dead_stream list \<times> nat) \<times> io"
where
  "check_entries net n_entries i [] deadStreams aliveCount s = (Inr (deadStreams, aliveCount), s)"
| "check_entries net n_entries i (entry # rest) deadStreams aliveCount s =
     (let displayTitle =
            (if groupTitle entry \<noteq> [] then title entry @ str '' ('' @ groupTitle entry @ str '')''
             else title entry);
          s1 = log [LogChecking (i + 1) n_entries displayTitle] s
      in case checkUrl (url entry) net s1 of
           (None, s2) \<Rightarrow>
             (Inl (str ''Cannot read properties of undefined (reading 'isAlive')''), s2)
         | (Some result, s2) \<Rightarrow>
             (let s3 = (if isAlive result then log [LogLive (statusCode result)] s2
                        else logDeadLink entry (error result) (statusCode result)
                               (log [LogDead (error result)] s2));
                  deadStreams' = (if isAlive result then deadStreams
                                  else deadStreams @
                                    [\<lparr>dead_entry = entry, dead_error = error result,
                                      dead_statusCode = statusCode result\<rparr>]);
                  aliveCount' = (if isAlive result then aliveCount + 1 else aliveCount);
                  s4 = (if int i < int n_entries - 1 then sleep DELAY_BETWEEN_REQUESTS s3 else s3)
              in check_entries net n_entries (i + 1) rest deadStreams' aliveCount' s4))"

text \<open>The itemized summary: \<^verbatim>\<open>deadStreams.forEach\<close> with its index.\<close>

fun log_summary_items :: "nat \<Rightarrow> dead_stream list \<Rightarrow> log_event list" where
  "log_summary_items index [] = []"
| "log_summary_items index (d # ds) =
     [LogSummaryItem (index + 1) (title (dead_entry d))]
     @ (if groupTitle (dead_entry d) \<noteq> [] then [LogSummaryGroup (groupTitle (dead_entry d))] else [])
     @ [LogSummaryUrl (url (dead_entry d)), LogSummaryError (dead_error d), LogSummaryBlank]
     @ log_summary_items (index + 1) ds"

text \<open>runCheck, with the exit code it passes to \<^verbatim>\<open>process.exit\<close>, if it calls it. A process
  that ends without that call exits with status 0.\<close>

definition runCheck ::
  "(jstring \<Rightarrow> bool) \<Rightarrow> filesystem \<Rightarrow> network \<Rightarrow> io \<Rightarrow> nat option \<times> io" where
  "runCheck isValidUrl fs net s0 =
     (let s1 = log [LogTitle, LogTitleRule] s0;
          s2 = log [LogParsing M3U_FILE] s1
      in case parseM3U isValidUrl fs M3U_FILE of
           Inl msg \<Rightarrow> (Some 1, log [LogErrorDuringCheck msg] s2)
         | Inr entries \<Rightarrow>
             (let s3 = log [LogFound (length entries)] s2 in
              if length entries = 0 then (None, log [LogNoStreams] s3)
              else
                (case check_entries net (length entries) 0 entries [] 0 s3 of
                   (Inl msg, s4) \<Rightarrow> (Some 1, log [LogErrorDuringCheck msg] s4)
                 | (Inr (deadStreams, aliveCount), s4) \<Rightarrow>
                     (let s5 = log [LogCompleted, LogCompletedRule, LogLiveCount aliveCount,
                                    LogDeadCount (length deadStreams),
                                    LogSuccessRate aliveCount (length entries)] s4
                      in if length deadStreams > 0
                         then (None, log ([LogSummary, LogSummaryRule]
                                          @ log_summary_items 0 deadStreams) s5)
                         else (None, log [LogAllLive] s5)))))"

definition exit_status :: "nat option \<times> io \<Rightarrow> nat" where
  "exit_status r = (case fst r of None \<Rightarrow> 0 | Some c \<Rightarrow> c)"

section \<open>The formatter (sort-m3u.js, cleanM3u)\<close>

text \<open>The function mapped over the lines of the file.\<close>

definition clean_line :: "jstring \<Rightarrow> jstring" where
  "clean_line raw =
     (let line = trim raw in
      if startsWith line (str ''#EXTINF'') then
        (let line = collapse_ws line;
             firstCommaPos = indexOf line comma
         in if firstCommaPos \<noteq> - 1 then
              (let extinf = substring line 0 firstCommaPos;
                   title = trim (substring_from line (firstCommaPos + 1))
               in extinf @ [comma] @ title)
            else line)
      else collapse_ws line)"

text \<open>The new text of the file.\<close>

definition cleanM3u_text :: "jstring \<Rightarrow> jstring" where
  "cleanM3u_text content =
     trim (join_nl (filter (\<lambda>line. line \<noteq> []) (map clean_line (split_nl content))))
     @ [0x0A]"

text \<open>cleanM3u: a failed read throws (\<^term>\<open>Inl\<close> of the message; for a missing file the
  platform's \<^verbatim>\<open>ENOENT: no such file or directory, open '<path>'\<close>); otherwise the file is
  written back.\<close>

definition cleanM3u :: "filesystem \<Rightarrow> jstring \<Rightarrow> jstring + filesystem" where
  "cleanM3u fs filePath =
     (case fs filePath of
        Missing \<Rightarrow>
          Inl (str ''ENOENT: no such file or directory, open '' @ [0x27] @ filePath @ [0x27])
      | Unreadable msg \<Rightarrow> Inl msg
      | File content \<Rightarrow> Inr (fs(filePath := File (cleanM3u_text content))))"

text \<open>A string in which every white space character is a space and no two white space
  characters are adjacent.\<close>

definition single_spaced :: "jstring \<Rightarrow> bool" where
  "single_spaced s =
     (list_all (\<lambda>c. \<not> is_ws c \<or> c = 0x20) s
      \<and> successively (\<lambda>a b. \<not> (is_ws a \<and> is_ws b)) s)"

text \<open>A string without white space at either end.\<close>

definition trimmed :: "jstring \<Rightarrow> bool" where
  "trimmed s = (s = [] \<or> (\<not> is_ws (hd s) \<and> \<not> is_ws (last s)))"

text \<open>
  The words of a line, for stating what the formatter does to it. A word is a non-empty
  string without white space and a gap is a non-empty string of white space. A text is given
  by its words: every word of \<open>segs\<close> with the gap that follows it, and then the last word.
  \<open>with_gaps\<close> is the text itself, \<open>with_spaces\<close> the same words with one space for each gap.
\<close>

definition is_word :: "jstring \<Rightarrow> bool" where
  "is_word w = (w \<noteq> [] \<and> \<not> list_ex is_ws w)"

definition is_gap :: "jstring \<Rightarrow> bool" where
  "is_gap g = (g \<noteq> [] \<and> list_all is_ws g)"

definition are_words :: "(jstring \<times> jstring) list \<Rightarrow> jstring \<Rightarrow> bool" where
  "are_words segs lastw = (list_all (\<lambda>(w, g). is_word w \<and> is_gap g) segs \<and> is_word lastw)"

definition with_gaps :: "(jstring \<times> jstring) list \<Rightarrow> jstring \<Rightarrow> jstring" where
  "with_gaps segs lastw = concat (map (\<lambda>(w, g). w @ g) segs) @ lastw"

definition with_spaces :: "(jstring \<times> jstring) list \<Rightarrow> jstring \<Rightarrow> jstring" where
  "with_spaces segs lastw = concat (map (\<lambda>(w, g). w @ [0x20]) segs) @ lastw"

section \<open>Facts about the string primitives\<close>

lemma str_Nil [simp]: "str [] = []"
  by (simp add: str_def)

lemma str_Cons [simp]: "str (c # cs) = of_char c # str cs"
  by (simp add: str_def)


lemma lastIndexOf_ge: "- 1 \<le> lastIndexOf s c"
  by (induction s) (auto simp: Let_def)

lemma lastIndexOf_none: "lastIndexOf s c = - 1 \<longleftrightarrow> c \<notin> set s"
proof (induction s)
  case Nil
  show ?case by simp
next
  case (Cons a s)
  have "- 1 \<le> lastIndexOf s c" by (rule lastIndexOf_ge)
  with Cons show ?case by (auto simp: Let_def)
qed

lemma lastIndexOf_append:
  "c \<notin> set post \<Longrightarrow> lastIndexOf (pre @ c # post) c = int (length pre)"
  by (induction pre) (auto simp: Let_def lastIndexOf_none)

lemma indexOf_ge: "- 1 \<le> indexOf s c"
  by (induction s) (auto simp: Let_def)

lemma indexOf_none: "indexOf s c = - 1 \<longleftrightarrow> c \<notin> set s"
proof (induction s)
  case Nil
  show ?case by simp
next
  case (Cons a s)
  have "- 1 \<le> indexOf s c" by (rule indexOf_ge)
  with Cons show ?case by (auto simp: Let_def)
qed

lemma indexOf_append:
  "c \<notin> set pre \<Longrightarrow> indexOf (pre @ c # post) c = int (length pre)"
  by (induction pre) (auto simp: Let_def)

lemma substring_prefix: "substring (pre @ c # post) 0 (int (length pre)) = pre"
  by (simp add: substring_def clamp_index_def)

lemma substring_from_suffix: "substring_from (pre @ c # post) (int (length pre) + 1) = post"
  by (simp add: substring_from_def clamp_index_def nat_add_distrib)

section \<open>Facts about the parser\<close>

lemma match_extinf_prefix:
  "content \<noteq> [] \<Longrightarrow> \<not> list_ex is_line_terminator content \<Longrightarrow>
   match_extinf (str ''#EXTINF:'' @ content) = Some content"
  by (simp add: match_extinf_def)

lemma parse_extinf_no_match:
  "content = [] \<or> list_ex is_line_terminator content \<Longrightarrow>
   parse_extinf (str ''#EXTINF:'' @ content) = \<lparr>ext_title = str ''Unknown'', ext_groupTitle = []\<rparr>"
  by (auto simp: parse_extinf_def match_extinf_def)

lemma startsWith_extinf: "startsWith (str ''#EXTINF:'' @ content) (str ''#EXTINF:'')"
  by (simp add: startsWith_def)

lemma startsWith_iff: "startsWith s p \<longleftrightarrow> (\<exists>r. s = p @ r)"
proof
  assume "startsWith s p"
  then have "s = p @ drop (length p) s"
    unfolding startsWith_def by (metis append_take_drop_id)
  then show "\<exists>r. s = p @ r" ..
next
  assume "\<exists>r. s = p @ r"
  then show "startsWith s p" by (auto simp: startsWith_def)
qed

lemma startsWith_extinf_hash: "startsWith l (str ''#EXTINF:'') \<Longrightarrow> startsWith l (str ''#'')"
  by (auto simp: startsWith_iff)

lemma parse_loop_urls:
  "map url (parse_loop isValidUrl ls cur acc) = map url acc @ filter (is_url_line isValidUrl) ls"
proof (induction ls arbitrary: cur acc)
  case Nil
  show ?case by simp
next
  case (Cons l ls)
  show ?case
  proof (cases "startsWith l (str ''#EXTINF:'')")
    case True
    then have "\<not> is_url_line isValidUrl l"
      using startsWith_extinf_hash [of l] by (simp add: is_url_line_def)
    with True Cons show ?thesis by simp
  next
    case False
    with Cons show ?thesis by (simp add: is_url_line_def Let_def)
  qed
qed

lemma length_filter_conj_le: "length (filter (\<lambda>x. P x \<and> Q x) xs) \<le> length (filter Q xs)"
  by (induction xs) auto

lemma parse_loop_trailing_extinf:
  "startsWith l (str ''#EXTINF:'') \<Longrightarrow>
   parse_loop isValidUrl (ls @ [l]) cur acc = parse_loop isValidUrl ls cur acc"
  by (induction ls arbitrary: cur acc) (simp_all add: Let_def)

lemma parse_text_urls:
  "map url (parse_text isValidUrl content) =
   filter (is_url_line isValidUrl) (content_lines content)"
  by (simp add: parse_text_def parse_loop_urls)







text \<open>
  C8. Parsing preserves order: the URLs of the entries, in order, are exactly the URL-bearing
  lines of the text, in order. So there is one entry per URL-bearing line and none for a
  metadata line alone: the number of entries is at most the number of lines that the URL
  parser accepts, and a metadata line at the end of the text adds nothing.
\<close>

theorem parse_text_order_preserving:
  "map url (parse_text isValidUrl content) =
     filter (is_url_line isValidUrl) (content_lines content)
   \<and> length (parse_text isValidUrl content) \<le> length (filter isValidUrl (content_lines content))
   \<and> (startsWith l (str ''#EXTINF:'') \<longrightarrow>
        parse_loop isValidUrl (ls @ [l]) None [] = parse_loop isValidUrl ls None [])"
proof (intro conjI impI)
  show u: "map url (parse_text isValidUrl content) =
     filter (is_url_line isValidUrl) (content_lines content)"
    by (rule parse_text_urls)
  have "length (parse_text isValidUrl content) =
        length (filter (is_url_line isValidUrl) (content_lines content))"
    using u by (metis length_map)
  also have "\<dots> \<le> length (filter isValidUrl (content_lines content))"
  proof -
    have "filter (is_url_line isValidUrl) (content_lines content) =
          filter (\<lambda>l. \<not> startsWith l (str ''#'') \<and> isValidUrl l) (content_lines content)"
      by (rule filter_cong) (simp_all add: is_url_line_def)
    then show ?thesis by (simp only: length_filter_conj_le)
  qed
  finally show "length (parse_text isValidUrl content)
      \<le> length (filter isValidUrl (content_lines content))" .
next
  assume "startsWith l (str ''#EXTINF:'')"
  then show "parse_loop isValidUrl (ls @ [l]) None [] = parse_loop isValidUrl ls None []"
    by (rule parse_loop_trailing_extinf)
qed

theorem parse_text_order_preserving_witness:
  "map url (parse_text (\<lambda>l. take 4 l = str ''http'')
      (str ''#EXTM3U'' @ [0x0A] @ str ''#EXTINF:-1,One'' @ [0x0A] @ str ''http://a/1'' @ [0x0A]
        @ str ''#EXTINF:-1,Lost'' @ [0x0A] @ str ''#EXTINF:-1,Two'' @ [0x0A] @ str ''not a url'' @ [0x0A]
        @ str ''http://a/2'' @ [0x0A] @ str ''#EXTINF:-1,Last'' @ [0x0A]))
   = [str ''http://a/1'', str ''http://a/2'']
   \<and> startsWith (str ''#EXTINF:-1,Last'') (str ''#EXTINF:'')
   \<and> parse_loop (\<lambda>l. take 4 l = str ''http'') ([str ''http://a/1''] @ [str ''#EXTINF:-1,Last'']) None []
       = [\<lparr>url = str ''http://a/1'', title = str ''Unknown'', groupTitle = []\<rparr>]"
proof -
  have s: "startsWith (str ''#EXTINF:-1,Last'') (str ''#EXTINF:'')"
    by (simp add: startsWith_def)
  have f: "filter (is_url_line (\<lambda>l. take 4 l = str ''http''))
      (content_lines (str ''#EXTM3U'' @ [0x0A] @ str ''#EXTINF:-1,One'' @ [0x0A] @ str ''http://a/1'' @ [0x0A]
        @ str ''#EXTINF:-1,Lost'' @ [0x0A] @ str ''#EXTINF:-1,Two'' @ [0x0A] @ str ''not a url'' @ [0x0A]
        @ str ''http://a/2'' @ [0x0A] @ str ''#EXTINF:-1,Last'' @ [0x0A]))
      = [str ''http://a/1'', str ''http://a/2'']"
    by code_simp
  have p: "parse_loop (\<lambda>l. take 4 l = str ''http'') [str ''http://a/1''] None []
       = [\<lparr>url = str ''http://a/1'', title = str ''Unknown'', groupTitle = []\<rparr>]"
    by (simp add: startsWith_def Let_def)
  note t = parse_text_order_preserving [of "\<lambda>l. take 4 l = str ''http''"
      "str ''#EXTM3U'' @ [0x0A] @ str ''#EXTINF:-1,One'' @ [0x0A] @ str ''http://a/1'' @ [0x0A]
        @ str ''#EXTINF:-1,Lost'' @ [0x0A] @ str ''#EXTINF:-1,Two'' @ [0x0A] @ str ''not a url'' @ [0x0A]
        @ str ''http://a/2'' @ [0x0A] @ str ''#EXTINF:-1,Last'' @ [0x0A]"
      "(str ''#EXTINF:-1,Last'')" "[str ''http://a/1'']"]
  from t have a: "map url (parse_text (\<lambda>l. take 4 l = str ''http'')
      (str ''#EXTM3U'' @ [0x0A] @ str ''#EXTINF:-1,One'' @ [0x0A] @ str ''http://a/1'' @ [0x0A]
        @ str ''#EXTINF:-1,Lost'' @ [0x0A] @ str ''#EXTINF:-1,Two'' @ [0x0A] @ str ''not a url'' @ [0x0A]
        @ str ''http://a/2'' @ [0x0A] @ str ''#EXTINF:-1,Last'' @ [0x0A]))
      = [str ''http://a/1'', str ''http://a/2'']"
    unfolding f by blast
  from t s have b: "parse_loop (\<lambda>l. take 4 l = str ''http'') ([str ''http://a/1''] @ [str ''#EXTINF:-1,Last'']) None []
       = [\<lparr>url = str ''http://a/1'', title = str ''Unknown'', groupTitle = []\<rparr>]"
    unfolding p by blast
  from a s b show ?thesis by blast
qed

section \<open>Facts about the prober\<close>

lemma makeGetRequest_run:
  "makeGetRequest u net s =
     ((case net (length (sent s)) of
         Response st \<Rightarrow> Inr st
       | TimedOut \<Rightarrow> Inl (new_Error timeout_message)
       | Failed c msg \<Rightarrow> Inl \<lparr>err_message = msg, err_code = c\<rparr>),
      s\<lparr>sent := sent s @ [range_request u]\<rparr>)"
  by (simp add: makeGetRequest_def send_def split: net_event.splits)

lemma makeRequest_no_fallback:
  "net (length (sent s)) \<noteq> Response 405 \<Longrightarrow>
   makeRequest u net s =
     ((case net (length (sent s)) of
         Response st \<Rightarrow> Inr st
       | TimedOut \<Rightarrow> Inl (new_Error timeout_message)
       | Failed c msg \<Rightarrow> Inl (new_Error (classify c msg))),
      s\<lparr>sent := sent s @ [head_request u]\<rparr>)"
  by (simp add: makeRequest_def send_def classify_def split: net_event.splits)

lemma makeRequest_fallback_run:
  "net (length (sent s)) = Response 405 \<Longrightarrow>
   makeRequest u net s = makeGetRequest u net (s\<lparr>sent := sent s @ [head_request u]\<rparr>)"
  by (simp add: makeRequest_def send_def)


lemma makeRequest_effect:
  "\<exists>new. snd (makeRequest u net s) = s\<lparr>sent := sent s @ new\<rparr>
     \<and> (new = [head_request u] \<or> new = [head_request u, range_request u])
     \<and> (case net (length (sent s) + length new - 1) of
           Response st \<Rightarrow> fst (makeRequest u net s) = Inr st
         | _ \<Rightarrow> isl (fst (makeRequest u net s)))"
proof (cases "net (length (sent s)) = Response 405")
  case True
  have "snd (makeRequest u net s) = s\<lparr>sent := sent s @ [head_request u, range_request u]\<rparr>"
    using True by (simp add: makeRequest_fallback_run makeGetRequest_run)
  moreover have "case net (length (sent s) + length [head_request u, range_request u] - 1) of
           Response st \<Rightarrow> fst (makeRequest u net s) = Inr st
         | _ \<Rightarrow> isl (fst (makeRequest u net s))"
    using True by (simp add: makeRequest_fallback_run makeGetRequest_run split: net_event.splits)
  ultimately show ?thesis by blast
next
  case False
  then have eq: "makeRequest u net s =
     ((case net (length (sent s)) of
         Response st \<Rightarrow> Inr st
       | TimedOut \<Rightarrow> Inl (new_Error timeout_message)
       | Failed c msg \<Rightarrow> Inl (new_Error (classify c msg))),
      s\<lparr>sent := sent s @ [head_request u]\<rparr>)"
    by (rule makeRequest_no_fallback)
  have "snd (makeRequest u net s) = s\<lparr>sent := sent s @ [head_request u]\<rparr>"
    by (simp add: eq)
  moreover have "case net (length (sent s) + length [head_request u] - 1) of
           Response st \<Rightarrow> fst (makeRequest u net s) = Inr st
         | _ \<Rightarrow> isl (fst (makeRequest u net s))"
    by (simp add: eq split: net_event.splits)
  ultimately show ?thesis by blast
qed

lemma checkUrl_loop_post:
  "attempt < MAX_RETRIES \<Longrightarrow>
   \<exists>r new. fst (checkUrl_loop u net attempt s) = Some r
     \<and> sent (snd (checkUrl_loop u net attempt s)) = sent s @ new
     \<and> console (snd (checkUrl_loop u net attempt s)) = console s
     \<and> 1 \<le> length (filter is_head new)
     \<and> length (filter is_head new) \<le> MAX_RETRIES - attempt
     \<and> length new \<le> 2 * length (filter is_head new)
     \<and> (case net (length (sent s @ new) - 1) of
           Response st \<Rightarrow> r = verdict st
         | _ \<Rightarrow> \<not> isAlive r \<and> statusCode r = 0
                \<and> length (filter is_head new) = MAX_RETRIES - attempt)"
proof (induction u net attempt s rule: checkUrl_loop.induct)
  case (1 u net attempt s)
  obtain new where snd_eq: "snd (makeRequest u net s) = s\<lparr>sent := sent s @ new\<rparr>"
    and new: "new = [head_request u] \<or> new = [head_request u, range_request u]"
    and ev: "case net (length (sent s) + length new - 1) of
           Response st \<Rightarrow> fst (makeRequest u net s) = Inr st
         | _ \<Rightarrow> isl (fst (makeRequest u net s))"
    using makeRequest_effect [of u net s] by blast
  have heads: "length (filter is_head new) = 1" and len: "length new \<le> 2" and ne: "new \<noteq> []"
    using new by (auto simp: is_head_def head_request_def range_request_def)
  obtain x s' where mr: "makeRequest u net s = (x, s')" by (cases "makeRequest u net s")
  have s': "s' = s\<lparr>sent := sent s @ new\<rparr>" using snd_eq mr by simp
  show ?case
  proof (cases x)
    case (Inr st)
    have "net (length (sent s) + length new - 1) = Response st"
      using ev mr Inr by (auto split: net_event.splits)
    then have last: "net (length (sent s @ new) - 1) = Response st" by simp
    have res: "checkUrl_loop u net attempt s = (Some (verdict st), s')"
      using "1.prems" mr Inr by (subst checkUrl_loop.simps) (simp add: verdict_def)
    show ?thesis
      apply (rule exI [of _ "verdict st"], rule exI [of _ new])
      using res s' heads len last "1.prems" by simp
  next
    case (Inl e)
    have nr: "\<forall>st. net (length (sent s) + length new - 1) \<noteq> Response st"
      using ev mr Inl by (auto split: net_event.splits)
    show ?thesis
    proof (cases "int attempt = int MAX_RETRIES - 1")
      case True
      have res: "checkUrl_loop u net attempt s =
          (Some \<lparr>isAlive = False, error = err_message e, statusCode = 0\<rparr>, s')"
        using "1.prems" mr Inl True by (subst checkUrl_loop.simps) simp
      have last: "case net (length (sent s @ new) - 1) of
           Response st \<Rightarrow> \<lparr>isAlive = False, error = err_message e, statusCode = 0\<rparr> = verdict st
         | _ \<Rightarrow> \<not> isAlive \<lparr>isAlive = False, error = err_message e, statusCode = 0\<rparr>
               \<and> statusCode \<lparr>isAlive = False, error = err_message e, statusCode = 0\<rparr> = 0
               \<and> length (filter is_head new) = MAX_RETRIES - attempt"
      proof -
        have "MAX_RETRIES - attempt = 1" using True "1.prems" by linarith
        with nr heads show ?thesis by (simp split: net_event.splits)
      qed
      show ?thesis
        apply (rule exI [of _ "\<lparr>isAlive = False, error = err_message e, statusCode = 0\<rparr>"], rule exI [of _ new])
        using res s' heads len last "1.prems" by simp
    next
      case False
      let ?s2 = "sleep (DELAY_BETWEEN_REQUESTS * (attempt + 1)) s'"
      have lt: "attempt + 1 < MAX_RETRIES" using "1.prems" False by linarith
      have res: "checkUrl_loop u net attempt s = checkUrl_loop u net (attempt + 1) ?s2"
        using "1.prems" mr Inl False by (subst checkUrl_loop.simps) simp
      from "1.IH" [OF "1.prems" mr [symmetric] _ False lt] Inl
      obtain r new2 where ih:
        "fst (checkUrl_loop u net (attempt + 1) ?s2) = Some r"
        "sent (snd (checkUrl_loop u net (attempt + 1) ?s2)) = sent ?s2 @ new2"
        "console (snd (checkUrl_loop u net (attempt + 1) ?s2)) = console ?s2"
        "1 \<le> length (filter is_head new2)"
        "length (filter is_head new2) \<le> MAX_RETRIES - (attempt + 1)"
        "length new2 \<le> 2 * length (filter is_head new2)"
        "case net (length (sent ?s2 @ new2) - 1) of
           Response st \<Rightarrow> r = verdict st
         | _ \<Rightarrow> \<not> isAlive r \<and> statusCode r = 0
                \<and> length (filter is_head new2) = MAX_RETRIES - (attempt + 1)"
        by blast
      have sent2: "sent ?s2 = sent s @ new" and cons2: "console ?s2 = console s"
        using s' by (simp_all add: sleep_def)
      have a: "sent (snd (checkUrl_loop u net attempt s)) = sent s @ (new @ new2)"
        using res ih(2) sent2 by simp
      have b: "console (snd (checkUrl_loop u net attempt s)) = console s"
        using res ih(3) cons2 by simp
      have c: "1 \<le> length (filter is_head (new @ new2))"
        using heads by simp
      have d: "length (filter is_head (new @ new2)) \<le> MAX_RETRIES - attempt"
        using heads ih(5) lt by simp
      have e: "length (new @ new2) \<le> 2 * length (filter is_head (new @ new2))"
        using heads len ih(6) by simp
      have f: "case net (length (sent s @ (new @ new2)) - 1) of
           Response st \<Rightarrow> r = verdict st
         | _ \<Rightarrow> \<not> isAlive r \<and> statusCode r = 0
                \<and> length (filter is_head (new @ new2)) = MAX_RETRIES - attempt"
        using ih(7) sent2 heads lt by (simp add: add.assoc split: net_event.splits)
      have g: "fst (checkUrl_loop u net attempt s) = Some r"
        using res ih(1) by simp
      from g a b c d e f show ?thesis by blast
    qed
  qed
qed


lemma checkUrl_loop_step:
  "attempt < MAX_RETRIES \<Longrightarrow>
   checkUrl_loop u net attempt s =
     (case makeRequest u net s of
        (Inr st, s') \<Rightarrow> (Some (verdict st), s')
      | (Inl e, s') \<Rightarrow>
          (if int attempt = int MAX_RETRIES - 1
           then (Some \<lparr>isAlive = False, error = err_message e, statusCode = 0\<rparr>, s')
           else checkUrl_loop u net (attempt + 1)
                  (sleep (DELAY_BETWEEN_REQUESTS * (attempt + 1)) s')))"
  by (subst checkUrl_loop.simps) (simp add: verdict_def split: prod.splits sum.splits)

lemma checkUrl_unfold:
  "checkUrl u net s =
     (case makeRequest u net s of
        (Inr st, s') \<Rightarrow> (Some (verdict st), s')
      | (Inl e, s') \<Rightarrow>
          (case makeRequest u net (sleep 1000 s') of
             (Inr st, s2) \<Rightarrow> (Some (verdict st), s2)
           | (Inl e', s2) \<Rightarrow>
               (Some \<lparr>isAlive = False, error = err_message e', statusCode = 0\<rparr>, s2)))"
  by (simp add: checkUrl_def checkUrl_loop_step MAX_RETRIES_def DELAY_BETWEEN_REQUESTS_def
        split: prod.splits sum.splits)

lemmas net_eval = checkUrl_unfold makeRequest_def makeGetRequest_def send_def sleep_def
  io_start_def verdict_def new_Error_def head_request_def range_request_def

lemma checkUrl_total: "\<exists>r s'. checkUrl u net s = (Some r, s')"
proof -
  have "0 < MAX_RETRIES" by (simp add: MAX_RETRIES_def)
  from checkUrl_loop_post [OF this, of u net s]
  obtain r where "fst (checkUrl_loop u net 0 s) = Some r" by blast
  then show ?thesis unfolding checkUrl_def by (cases "checkUrl_loop u net 0 s") auto
qed

lemma check_entries_returns:
  "\<exists>d a s'. check_entries net n i es dead alive s = (Inr (d, a), s')"
proof (induction es arbitrary: i dead alive s)
  case Nil
  show ?case by simp
next
  case (Cons e es)
  let ?d = "if groupTitle e \<noteq> [] then title e @ str '' ('' @ groupTitle e @ str '')'' else title e"
  obtain r s2 where c: "checkUrl (url e) net (log [LogChecking (i + 1) n ?d] s) = (Some r, s2)"
    using checkUrl_total by blast
  show ?case
    using c Cons.IH by (simp add: Let_def)
qed

text \<open>
  C1. A probe always returns a result, and the result is decided by the outcome of the last
  request the probe issues (the loop stops at the first attempt that resolves, and a 405 on
  the HEAD request is replaced by the outcome of the follow-up request). The result is alive
  exactly when that last outcome is a response with a status below 400; a response gives its
  status as the status code, so a status of 400 or more is dead; a transport failure there means
  that all \<^term>\<open>MAX_RETRIES\<close> attempts were made and failed, and the result is dead with
  status code 0. In particular a probe that never received a response is dead with status
  code 0.
\<close>

theorem checkUrl_alive_iff_status_below_400:
  "\<exists>r s' new. checkUrl u net s = (Some r, s') \<and> sent s' = sent s @ new \<and> new \<noteq> []
     \<and> (isAlive r \<longleftrightarrow> (\<exists>st. net (length (sent s') - 1) = Response st \<and> st < 400))
     \<and> (\<forall>st. net (length (sent s') - 1) = Response st \<longrightarrow> statusCode r = st)
     \<and> ((\<forall>st. net (length (sent s') - 1) \<noteq> Response st) \<longrightarrow>
            \<not> isAlive r \<and> statusCode r = 0 \<and> length (filter is_head new) = MAX_RETRIES)
     \<and> ((\<forall>k st. length (sent s) \<le> k \<and> k < length (sent s') \<longrightarrow> net k \<noteq> Response st) \<longrightarrow>
            \<not> isAlive r \<and> statusCode r = 0)"
proof -
  have "0 < MAX_RETRIES" by (simp add: MAX_RETRIES_def)
  from checkUrl_loop_post [OF this, of u net s]
  obtain r new where p:
    "fst (checkUrl_loop u net 0 s) = Some r"
    "sent (snd (checkUrl_loop u net 0 s)) = sent s @ new"
    "1 \<le> length (filter is_head new)"
    "case net (length (sent s @ new) - 1) of
           Response st \<Rightarrow> r = verdict st
         | _ \<Rightarrow> \<not> isAlive r \<and> statusCode r = 0
                \<and> length (filter is_head new) = MAX_RETRIES - 0"
    by blast
  define s' where "s' = snd (checkUrl_loop u net 0 s)"
  have c: "checkUrl u net s = (Some r, s')"
    unfolding checkUrl_def s'_def using p(1) by (cases "checkUrl_loop u net 0 s") simp
  have sn: "sent s' = sent s @ new" unfolding s'_def by (rule p(2))
  have ne: "new \<noteq> []" using p(3) by auto
  have last: "case net (length (sent s') - 1) of
           Response st \<Rightarrow> r = verdict st
         | _ \<Rightarrow> \<not> isAlive r \<and> statusCode r = 0 \<and> length (filter is_head new) = MAX_RETRIES"
    using p(4) sn by (simp split: net_event.splits)
  have a: "isAlive r \<longleftrightarrow> (\<exists>st. net (length (sent s') - 1) = Response st \<and> st < 400)"
    using last by (auto simp: verdict_def split: net_event.splits if_splits)
  have b: "\<forall>st. net (length (sent s') - 1) = Response st \<longrightarrow> statusCode r = st"
    using last by (auto simp: verdict_def split: net_event.splits)
  have d: "(\<forall>st. net (length (sent s') - 1) \<noteq> Response st) \<longrightarrow>
            \<not> isAlive r \<and> statusCode r = 0 \<and> length (filter is_head new) = MAX_RETRIES"
    using last by (auto split: net_event.splits)
  have e: "(\<forall>k st. length (sent s) \<le> k \<and> k < length (sent s') \<longrightarrow> net k \<noteq> Response st) \<longrightarrow>
            \<not> isAlive r \<and> statusCode r = 0"
  proof
    assume h: "\<forall>k st. length (sent s) \<le> k \<and> k < length (sent s') \<longrightarrow> net k \<noteq> Response st"
    have "length (sent s) \<le> length (sent s') - 1 \<and> length (sent s') - 1 < length (sent s')"
      using sn ne by (cases new) auto
    with h have "\<forall>st. net (length (sent s') - 1) \<noteq> Response st" by blast
    with d show "\<not> isAlive r \<and> statusCode r = 0" by blast
  qed
  from c sn ne a b d e show ?thesis by blast
qed

theorem checkUrl_alive_iff_status_below_400_witness:
  "\<exists>r s'. checkUrl (str ''http://a/1'') (\<lambda>k. if k = 0 then TimedOut else Response 200) io_start = (Some r, s')
     \<and> (if (0::nat) = 0 then TimedOut else Response 200) = TimedOut
     \<and> length (sent s') = 2 \<and> isAlive r \<and> statusCode r = 200"
proof -
  let ?net = "\<lambda>k::nat. if k = 0 then TimedOut else Response 200"
  from checkUrl_alive_iff_status_below_400 [of "(str ''http://a/1'')" ?net io_start]
  obtain r s' where w:
    "checkUrl (str ''http://a/1'') ?net io_start = (Some r, s')"
    "isAlive r \<longleftrightarrow> (\<exists>st. ?net (length (sent s') - 1) = Response st \<and> st < 400)"
    "\<forall>st. ?net (length (sent s') - 1) = Response st \<longrightarrow> statusCode r = st"
    by blast
  have "length (sent (snd (checkUrl (str ''http://a/1'') ?net io_start))) = 2"
    by (simp add: net_eval)
  with w(1) have l: "length (sent s') = 2" by simp
  then have ev: "?net (length (sent s') - 1) = Response 200" by simp
  have "isAlive r" using w(2) ev by simp
  moreover have "statusCode r = 200" using w(3) ev by simp
  ultimately show ?thesis using w(1) l by simp
qed

text \<open>
  C2. Every attempt (call of makeRequest) issues exactly one HEAD request, followed by at most
  one GET request. A probe makes at least one and at most \<^term>\<open>MAX_RETRIES\<close> = 2 attempts,
  whatever the network does; it therefore issues at most four requests.
\<close>

theorem checkUrl_retry_bound:
  "MAX_RETRIES = 2
   \<and> (\<exists>q. sent (snd (makeRequest u net s)) = sent s @ q
          \<and> length (filter is_head q) = 1 \<and> length q \<le> 2)
   \<and> (\<exists>new. sent (snd (checkUrl u net s)) = sent s @ new
          \<and> 1 \<le> length (filter is_head new)
          \<and> length (filter is_head new) \<le> MAX_RETRIES
          \<and> length new \<le> 2 * MAX_RETRIES)"
proof (intro conjI)
  show "MAX_RETRIES = 2" by (simp add: MAX_RETRIES_def)
next
  obtain q where q: "snd (makeRequest u net s) = s\<lparr>sent := sent s @ q\<rparr>"
    "q = [head_request u] \<or> q = [head_request u, range_request u]"
    using makeRequest_effect [of u net s] by blast
  have "length (filter is_head q) = 1 \<and> length q \<le> 2"
    using q(2) by (auto simp: is_head_def head_request_def range_request_def)
  with q(1) show "\<exists>q. sent (snd (makeRequest u net s)) = sent s @ q
          \<and> length (filter is_head q) = 1 \<and> length q \<le> 2"
    by simp
next
  have "0 < MAX_RETRIES" by (simp add: MAX_RETRIES_def)
  from checkUrl_loop_post [OF this, of u net s]
  obtain new where p:
    "sent (snd (checkUrl_loop u net 0 s)) = sent s @ new"
    "1 \<le> length (filter is_head new)"
    "length (filter is_head new) \<le> MAX_RETRIES - 0"
    "length new \<le> 2 * length (filter is_head new)"
    by blast
  have "length new \<le> 2 * MAX_RETRIES" using p(3,4) by simp
  with p show "\<exists>new. sent (snd (checkUrl u net s)) = sent s @ new
          \<and> 1 \<le> length (filter is_head new)
          \<and> length (filter is_head new) \<le> MAX_RETRIES
          \<and> length new \<le> 2 * MAX_RETRIES"
    unfolding checkUrl_def by auto
qed

theorem checkUrl_retry_bound_witness:
  "length (filter is_head (sent (snd (checkUrl (str ''http://a/1'')
      (\<lambda>k. if even k then Response 405 else TimedOut) io_start)))) \<le> 2
   \<and> length (sent (snd (checkUrl (str ''http://a/1'')
      (\<lambda>k. if even k then Response 405 else TimedOut) io_start))) = 4"
proof -
  let ?net = "\<lambda>k::nat. if even k then Response 405 else TimedOut"
  from checkUrl_retry_bound [of "(str ''http://a/1'')" ?net io_start]
  obtain new where n: "sent (snd (checkUrl (str ''http://a/1'') ?net io_start)) = sent io_start @ new"
    "length (filter is_head new) \<le> MAX_RETRIES" "MAX_RETRIES = 2"
    by blast
  have "length (sent (snd (checkUrl (str ''http://a/1'') ?net io_start))) = 4"
    by (simp add: net_eval)
  with n show ?thesis by (simp add: io_start_def)
qed

lemma timeout_message_text: "timeout_message = str ''Timeout after 10000ms''"
  by (simp add: timeout_message_def REQUEST_TIMEOUT_def show_nat.simps digit_char_def)

lemma makeRequest_head_failure_classified:
  "net (length (sent s)) = TimedOut \<Longrightarrow>
     fst (makeRequest u net s) = Inl (new_Error (str ''Timeout after 10000ms''))"
  "net (length (sent s)) = Failed c msg \<Longrightarrow>
     fst (makeRequest u net s) = Inl (new_Error (classify c msg))"
  "classify c msg \<in> {(str ''Connection refused''), str ''Host not found'', str ''Connection timeout'',
     (str ''Connection error: '') @ msg}"
  by (simp_all add: makeRequest_no_fallback timeout_message_text classify_def)

text \<open>
  C3. When the HEAD request of an attempt receives status 405, the attempt issues exactly one
  more request, a GET for the same URL with the header \<^verbatim>\<open>Range: bytes=0-1024\<close>, and the
  outcome of the attempt is the outcome of that request: its status if it is answered (which
  is then also the status the probe reports), a rejection if it fails.
\<close>

theorem makeRequest_405_fallback:
  assumes "net (length (sent s)) = Response 405"
  shows "sent (snd (makeRequest u net s)) = sent s @ [head_request u, range_request u]
    \<and> req_method (range_request u) = GET \<and> req_url (range_request u) = u
    \<and> ((str ''Range''), str ''bytes=0-1024'') \<in> set (req_headers (range_request u))
    \<and> (\<forall>st. net (length (sent s) + 1) = Response st \<longrightarrow>
          fst (makeRequest u net s) = Inr st
          \<and> checkUrl u net s = (Some (verdict st), s\<lparr>sent := sent s @ [head_request u, range_request u]\<rparr>))
    \<and> ((\<forall>st. net (length (sent s) + 1) \<noteq> Response st) \<longrightarrow> isl (fst (makeRequest u net s)))"
proof -
  have m: "makeRequest u net s =
     ((case net (length (sent s) + 1) of
         Response st \<Rightarrow> Inr st
       | TimedOut \<Rightarrow> Inl (new_Error timeout_message)
       | Failed c msg \<Rightarrow> Inl \<lparr>err_message = msg, err_code = c\<rparr>),
      s\<lparr>sent := sent s @ [head_request u, range_request u]\<rparr>)"
    using assms by (simp add: makeRequest_fallback_run makeGetRequest_run)
  have a: "sent (snd (makeRequest u net s)) = sent s @ [head_request u, range_request u]"
    by (simp add: m)
  have b: "req_method (range_request u) = GET \<and> req_url (range_request u) = u
    \<and> ((str ''Range''), str ''bytes=0-1024'') \<in> set (req_headers (range_request u))"
    by (simp add: range_request_def)
  have c: "\<forall>st. net (length (sent s) + 1) = Response st \<longrightarrow>
          fst (makeRequest u net s) = Inr st
          \<and> checkUrl u net s = (Some (verdict st), s\<lparr>sent := sent s @ [head_request u, range_request u]\<rparr>)"
    by (simp add: checkUrl_unfold m)
  have d: "(\<forall>st. net (length (sent s) + 1) \<noteq> Response st) \<longrightarrow> isl (fst (makeRequest u net s))"
    by (simp add: m split: net_event.splits)
  from a b c d show ?thesis by blast
qed

theorem makeRequest_405_fallback_witness:
  "(if (0::nat) = 0 then Response 405 else Response 200) = Response 405
   \<and> sent (snd (makeRequest (str ''http://a/1'') (\<lambda>k. if k = 0 then Response 405 else Response 200) io_start))
       = [head_request (str ''http://a/1''), range_request (str ''http://a/1'')]
   \<and> fst (makeRequest (str ''http://a/1'') (\<lambda>k. if k = 0 then Response 405 else Response 200) io_start) = Inr 200
   \<and> fst (checkUrl (str ''http://a/1'') (\<lambda>k. if k = 0 then Response 405 else Response 200) io_start)
       = Some \<lparr>isAlive = True, error = [], statusCode = 200\<rparr>"
proof -
  let ?net = "\<lambda>k::nat. if k = 0 then Response 405 else Response 200"
  have h: "?net (length (sent io_start)) = Response 405"
    by (simp add: io_start_def)
  have e: "?net (length (sent io_start) + 1) = Response 200"
    by simp
  from makeRequest_405_fallback [of ?net io_start "(str ''http://a/1'')", OF h] e
  show ?thesis by (simp add: io_start_def verdict_def)
qed

text \<open>
  C6. The \<^verbatim>\<open>error\<close> handler of makeRequest turns a failure of the HEAD request into one of
  the short messages (\<open>makeRequest_head_failure_classified\<close>), but the handler of
  makeGetRequest rejects with the error as it is. When both attempts get a 405 on HEAD and a
  refused connection on the follow-up GET, the message of the dead result is the platform's
  own text, not \<^verbatim>\<open>Connection refused\<close>.
\<close>

theorem checkUrl_fallback_error_not_classified:
  "fst (checkUrl (str ''http://127.0.0.1/live'')
         (\<lambda>k. if even k then Response 405
              else Failed (Some (str ''ECONNREFUSED'')) (str ''connect ECONNREFUSED 127.0.0.1:80''))
         io_start)
   = Some \<lparr>isAlive = False, error = str ''connect ECONNREFUSED 127.0.0.1:80'', statusCode = 0\<rparr>"
  by (simp add: net_eval)

section \<open>Facts about the checker\<close>

text \<open>
  C5 (as amended). The exit status of a run is 1 when the playlist file is missing or cannot
  be read, and 0 whenever the file can be read: whatever its text (an empty file included)
  and whatever the network answers, so dead streams never change it.
\<close>

theorem runCheck_exit_status:
  "exit_status (runCheck isValidUrl fs net s) =
     (case fs M3U_FILE of File c \<Rightarrow> 0 | Missing \<Rightarrow> 1 | Unreadable msg \<Rightarrow> 1)"
proof (cases "fs M3U_FILE")
  case Missing
  then show ?thesis by (simp add: runCheck_def parseM3U_def exit_status_def Let_def)
next
  case (Unreadable m)
  then show ?thesis by (simp add: runCheck_def parseM3U_def exit_status_def Let_def)
next
  case (File c)
  let ?es = "parse_text isValidUrl c"
  let ?s3 = "log [LogFound (length ?es)] (log [LogParsing M3U_FILE] (log [LogTitle, LogTitleRule] s))"
  obtain d a s4 where ce: "check_entries net (length ?es) 0 ?es [] 0 ?s3 = (Inr (d, a), s4)"
    using check_entries_returns by blast
  have p: "parseM3U isValidUrl fs M3U_FILE = Inr ?es"
    using File by (simp add: parseM3U_def)
  have "fst (runCheck isValidUrl fs net s) = None"
    unfolding runCheck_def p using ce by (simp add: Let_def)
  then show ?thesis using File by (simp add: exit_status_def)
qed

theorem runCheck_exit_status_witness:
  "LogDeadCount 1 \<in> set (console (snd
      (runCheck (\<lambda>l. True) (\<lambda>p. File (str ''http://a/1'')) (\<lambda>k. TimedOut) io_start)))
   \<and> exit_status (runCheck (\<lambda>l. True) (\<lambda>p. File (str ''http://a/1'')) (\<lambda>k. TimedOut) io_start) = 0
   \<and> exit_status (runCheck (\<lambda>l. True) (\<lambda>p. Missing) (\<lambda>k. Response 200) io_start) = 1
   \<and> exit_status (runCheck (\<lambda>l. True) (\<lambda>p. Unreadable (str ''EACCES: permission denied''))
        (\<lambda>k. Response 200) io_start) = 1"
  using runCheck_exit_status [of "\<lambda>l. True" "\<lambda>p. File (str ''http://a/1'')" "\<lambda>k. TimedOut" io_start]
    runCheck_exit_status [of "\<lambda>l. True" "\<lambda>p. Missing" "\<lambda>k. Response 200" io_start]
    runCheck_exit_status [of "\<lambda>l. True" "\<lambda>p. Unreadable (str ''EACCES: permission denied'')"
      "\<lambda>k. Response 200" io_start]
  by (simp add: runCheck_def parseM3U_def parse_text_def content_lines_def trim_def is_ws_def
        startsWith_def Let_def net_eval log_def logDeadLink_def DELAY_BETWEEN_REQUESTS_def)

theorem runCheck_empty_file_counterexample:
  "exit_status (runCheck (\<lambda>l. True) (\<lambda>p. File []) (\<lambda>k. TimedOut) io_start) = 0"
  by (simp add: runCheck_def parseM3U_def parse_text_def content_lines_def trim_def
        exit_status_def Let_def)

text \<open>
  C7. When the playlist file can be read and none of its lines bears a URL, the parser returns
  the empty list, not an error, and the run only prints its banner, the file it parses, the
  count 0 and the notice that no stream was found: it issues no request, takes no sleep,
  prints no success rate and does not call \<^verbatim>\<open>process.exit\<close>.
\<close>

theorem runCheck_without_entries:
  assumes "fs M3U_FILE = File content"
    and "\<forall>l \<in> set (content_lines content). \<not> is_url_line isValidUrl l"
  shows "parseM3U isValidUrl fs M3U_FILE = Inr []
    \<and> runCheck isValidUrl fs net s =
        (None, log [LogTitle, LogTitleRule, LogParsing M3U_FILE, LogFound 0, LogNoStreams] s)
    \<and> sent (snd (runCheck isValidUrl fs net s)) = sent s
    \<and> slept (snd (runCheck isValidUrl fs net s)) = slept s
    \<and> (\<exists>evs. console (snd (runCheck isValidUrl fs net s)) = console s @ evs
          \<and> LogNoStreams \<in> set evs \<and> (\<forall>a t. LogSuccessRate a t \<notin> set evs))"
proof -
  have "filter (is_url_line isValidUrl) (content_lines content) = []"
    using assms(2) by (simp add: filter_empty_conv)
  then have "map url (parse_text isValidUrl content) = []"
    by (simp add: parse_text_def parse_loop_urls)
  then have e: "parse_text isValidUrl content = []" by simp
  have p: "parseM3U isValidUrl fs M3U_FILE = Inr []"
    using assms(1) e by (simp add: parseM3U_def)
  have r: "runCheck isValidUrl fs net s =
        (None, log [LogTitle, LogTitleRule, LogParsing M3U_FILE, LogFound 0, LogNoStreams] s)"
    unfolding runCheck_def p by (simp add: Let_def log_def)
  have c: "console (snd (runCheck isValidUrl fs net s)) =
        console s @ [LogTitle, LogTitleRule, LogParsing M3U_FILE, LogFound 0, LogNoStreams]
      \<and> LogNoStreams \<in> set [LogTitle, LogTitleRule, LogParsing M3U_FILE, LogFound 0, LogNoStreams]
      \<and> (\<forall>a t. LogSuccessRate a t \<notin>
            set [LogTitle, LogTitleRule, LogParsing M3U_FILE, LogFound 0, LogNoStreams])"
    by (simp add: r log_def)
  have "sent (snd (runCheck isValidUrl fs net s)) = sent s
      \<and> slept (snd (runCheck isValidUrl fs net s)) = slept s"
    by (simp add: r log_def)
  with p r c show ?thesis by blast
qed

theorem runCheck_without_entries_witness:
  "content_lines (str ''#EXTM3U'' @ [0x0A] @ str ''#EXTINF:-1,Lost'' @ [0x0A] @ str ''not a url'' @ [0x0A])
     = [str ''#EXTM3U'', str ''#EXTINF:-1,Lost'', str ''not a url'']
   \<and> runCheck (\<lambda>l. take 4 l = str ''http'')
        (\<lambda>p. File (str ''#EXTM3U'' @ [0x0A] @ str ''#EXTINF:-1,Lost'' @ [0x0A] @ str ''not a url'' @ [0x0A]))
        (\<lambda>k. Response 200) io_start
     = (None, \<lparr>sent = [], slept = [],
               console = [LogTitle, LogTitleRule, LogParsing (str ''free.m3u''), LogFound 0, LogNoStreams]\<rparr>)"
proof -
  let ?c = "str ''#EXTM3U'' @ [0x0A] @ str ''#EXTINF:-1,Lost'' @ [0x0A] @ str ''not a url'' @ [0x0A]"
  let ?v = "\<lambda>l. take 4 l = str ''http''"
  have l: "content_lines ?c = [str ''#EXTM3U'', str ''#EXTINF:-1,Lost'', str ''not a url'']"
    by code_simp
  have h1: "(\<lambda>p. File ?c) M3U_FILE = File ?c" by simp
  have h2: "\<forall>l \<in> set (content_lines ?c). \<not> is_url_line ?v l"
    unfolding l by (simp add: is_url_line_def startsWith_def)
  from runCheck_without_entries [of "\<lambda>p. File ?c" ?c ?v "\<lambda>k. Response 200" io_start, OF h1 h2] l
  show ?thesis by (simp add: log_def io_start_def M3U_FILE_def)
qed

section \<open>Facts about the formatter\<close>

lemma comma_not_ws: "\<not> is_ws comma"
  by (simp add: is_ws_def)

lemma space_ws: "is_ws (0x20)"
  by (simp add: is_ws_def)

lemma collapse_ws_hd:
  "s = [] \<or> \<not> is_ws (hd s) \<Longrightarrow> collapse_ws s = [] \<or> \<not> is_ws (hd (collapse_ws s))"
  by (cases s) auto

lemma dropWhile_ws_hd: "dropWhile is_ws s = [] \<or> \<not> is_ws (hd (dropWhile is_ws s))"
  by (metis hd_dropWhile)

lemma single_spaced_collapse: "single_spaced (collapse_ws s)"
proof (induction s rule: collapse_ws.induct)
  case 1
  show ?case by (simp add: single_spaced_def)
next
  case (2 c cs)
  show ?case
  proof (cases "is_ws c")
    case True
    have h: "collapse_ws (dropWhile is_ws cs) = [] \<or> \<not> is_ws (hd (collapse_ws (dropWhile is_ws cs)))"
      using dropWhile_ws_hd [of cs] by (rule collapse_ws_hd)
    from 2(1) [OF True] have "single_spaced (collapse_ws (dropWhile is_ws cs))" .
    with True h show ?thesis
      by (auto simp: single_spaced_def successively_Cons)
  next
    case False
    from 2(2) [OF False] have "single_spaced (collapse_ws cs)" .
    with False show ?thesis
      by (auto simp: single_spaced_def successively_Cons)
  qed
qed

lemma single_spaced_append:
  "single_spaced (a @ b) \<Longrightarrow> single_spaced a \<and> single_spaced b"
  by (auto simp: single_spaced_def successively_append_iff)

lemma single_spaced_rev: "single_spaced (rev s) = single_spaced s"
proof -
  have "(\<lambda>x y. \<not> (is_ws y \<and> is_ws x)) = (\<lambda>a b. \<not> (is_ws a \<and> is_ws b))"
    by (intro ext) auto
  then have "successively (\<lambda>x y. \<not> (is_ws y \<and> is_ws x)) s
      = successively (\<lambda>a b. \<not> (is_ws a \<and> is_ws b)) s"
    by (rule arg_cong)
  then show ?thesis
    unfolding single_spaced_def successively_rev list_all_rev by (rule arg_cong)
qed

lemma single_spaced_dropWhile: "single_spaced s \<Longrightarrow> single_spaced (dropWhile P s)"
  using single_spaced_append [of "takeWhile P s" "dropWhile P s"] by simp

lemma single_spaced_trim: "single_spaced s \<Longrightarrow> single_spaced (trim s)"
  by (simp add: trim_def single_spaced_rev single_spaced_dropWhile)

lemma single_spaced_join_comma:
  "single_spaced a \<Longrightarrow> single_spaced b \<Longrightarrow> single_spaced (a @ [comma] @ b)"
  by (auto simp: single_spaced_def successively_append_iff successively_Cons comma_not_ws)

lemma filter_collapse: "filter (\<lambda>c. \<not> is_ws c) (collapse_ws s) = filter (\<lambda>c. \<not> is_ws c) s"
proof (induction s rule: collapse_ws.induct)
  case 1
  show ?case by simp
next
  case (2 c cs)
  have d: "filter (\<lambda>c. \<not> is_ws c) (dropWhile is_ws cs) = filter (\<lambda>c. \<not> is_ws c) cs"
    by (induction cs) auto
  show ?case using 2 d by (auto simp: space_ws)
qed

lemma filter_dropWhile_ws: "filter (\<lambda>c. \<not> is_ws c) (dropWhile is_ws s) = filter (\<lambda>c. \<not> is_ws c) s"
  by (induction s) auto

lemma filter_trim: "filter (\<lambda>c. \<not> is_ws c) (trim s) = filter (\<lambda>c. \<not> is_ws c) s"
proof -
  have "filter (\<lambda>c. \<not> is_ws c) (trim s) = rev (filter (\<lambda>c. \<not> is_ws c) (dropWhile is_ws (rev (dropWhile is_ws s))))"
    by (simp add: trim_def rev_filter)
  also have "\<dots> = rev (filter (\<lambda>c. \<not> is_ws c) (rev (dropWhile is_ws s)))"
    by (simp only: filter_dropWhile_ws)
  also have "\<dots> = filter (\<lambda>c. \<not> is_ws c) s"
    by (simp add: rev_filter [symmetric] filter_dropWhile_ws)
  finally show ?thesis .
qed

lemma clean_line_comma:
  assumes "startsWith (trim raw) (str ''#EXTINF'')"
    and "collapse_ws (trim raw) = pre @ [comma] @ post" and "comma \<notin> set pre"
  shows "clean_line raw = pre @ [comma] @ trim post"
proof -
  have c: "collapse_ws (trim raw) = pre @ comma # post" using assms(2) by simp
  have i: "indexOf (pre @ comma # post) comma = int (length pre)"
    using assms(3) by (rule indexOf_append)
  show ?thesis
    unfolding clean_line_def
    using assms(1) by (simp add: Let_def c i substring_prefix substring_from_suffix)
qed

lemma clean_line_no_comma:
  assumes "comma \<notin> set (collapse_ws (trim raw))"
  shows "clean_line raw = collapse_ws (trim raw)"
  using assms by (simp add: clean_line_def Let_def indexOf_none)

lemma clean_line_other:
  assumes "\<not> startsWith (trim raw) (str ''#EXTINF'')"
  shows "clean_line raw = collapse_ws (trim raw)"
  using assms by (simp add: clean_line_def Let_def)

lemma clean_line_cases:
  obtains (plain) "clean_line raw = collapse_ws (trim raw)"
  | (comma) pre post where "collapse_ws (trim raw) = pre @ [comma] @ post"
      "clean_line raw = pre @ [comma] @ trim post"
proof (cases "startsWith (trim raw) (str ''#EXTINF'') \<and> comma \<in> set (collapse_ws (trim raw))")
  case True
  then obtain pre post where s: "collapse_ws (trim raw) = pre @ comma # post" "comma \<notin> set pre"
    by (meson split_list_first)
  then have "clean_line raw = pre @ [comma] @ trim post"
    using True clean_line_comma [of raw pre post] by simp
  with s(1) show ?thesis using comma by simp
next
  case False
  then have "clean_line raw = collapse_ws (trim raw)"
    using clean_line_no_comma clean_line_other by blast
  then show ?thesis by (rule plain)
qed

lemma single_spaced_clean_line: "single_spaced (clean_line raw)"
proof (cases raw rule: clean_line_cases)
  case plain
  then show ?thesis by (simp add: single_spaced_collapse)
next
  case (comma pre post)
  have "single_spaced (pre @ [comma] @ post)"
    using single_spaced_collapse [of "trim raw"] comma(1) by simp
  then have "single_spaced pre" and "single_spaced post"
    using single_spaced_append [of pre "[comma] @ post"] single_spaced_append [of "[comma]" post]
    by auto
  then show ?thesis
    using comma(2) by (simp add: single_spaced_join_comma single_spaced_trim del: append.simps)
qed

lemma filter_clean_line:
  "filter (\<lambda>c. \<not> is_ws c) (clean_line raw) = filter (\<lambda>c. \<not> is_ws c) raw"
proof (cases raw rule: clean_line_cases)
  case plain
  then show ?thesis by (simp add: filter_collapse filter_trim)
next
  case (comma pre post)
  have "filter (\<lambda>c. \<not> is_ws c) (clean_line raw) = filter (\<lambda>c. \<not> is_ws c) (pre @ [comma] @ post)"
    using comma(2) by (simp add: filter_trim)
  also have "\<dots> = filter (\<lambda>c. \<not> is_ws c) raw"
    using comma(1) [symmetric] by (simp only: filter_collapse filter_trim)
  finally show ?thesis .
qed


lemma dropWhile_hd_id: "xs \<noteq> [] \<Longrightarrow> \<not> P (hd xs) \<Longrightarrow> dropWhile P xs = xs"
  by (cases xs) auto

lemma trim_id: "trimmed s \<Longrightarrow> trim s = s"
proof (cases "s = []")
  case True
  then show ?thesis by (simp add: trim_def)
next
  case False
  assume "trimmed s"
  with False have h: "\<not> is_ws (hd s)" and l: "\<not> is_ws (last s)"
    by (auto simp: trimmed_def)
  have a: "dropWhile is_ws s = s" using False h by (rule dropWhile_hd_id)
  have "hd (rev s) = last s" using False by (simp add: hd_rev)
  with l have "\<not> is_ws (hd (rev s))" by simp
  moreover have "rev s \<noteq> []" using False by simp
  ultimately have b: "dropWhile is_ws (rev s) = rev s" by (rule dropWhile_hd_id [rotated])
  show ?thesis by (simp add: trim_def a b)
qed

lemma last_dropWhile_ws:
  "s \<noteq> [] \<Longrightarrow> \<not> is_ws (last s) \<Longrightarrow> dropWhile is_ws s \<noteq> [] \<and> last (dropWhile is_ws s) = last s"
  by (induction s) (auto split: if_splits)

lemma trimmed_trim: "trimmed (trim s)"
proof (cases "trim s = []")
  case True
  then show ?thesis by (simp add: trimmed_def)
next
  case False
  let ?t = "dropWhile is_ws s"
  let ?u = "dropWhile is_ws (rev ?t)"
  have u: "?u \<noteq> []" using False by (simp add: trim_def)
  have t: "?t \<noteq> []"
  proof
    assume "?t = []"
    then have "?u = []" by (simp only: rev.simps dropWhile.simps)
    with u show False ..
  qed
  have hu: "\<not> is_ws (hd ?u)" using u by (metis hd_dropWhile)
  have ht: "\<not> is_ws (hd ?t)" using t by (metis hd_dropWhile)
  have "last (rev ?t) = hd ?t" using t by (simp add: last_rev)
  then have "last ?u = hd ?t"
    using last_dropWhile_ws [of "rev ?t"] t ht by simp
  then have "\<not> is_ws (hd (rev ?u))" using u ht by (simp add: hd_rev)
  moreover have "\<not> is_ws (last (rev ?u))" using u hu by (simp add: last_rev)
  ultimately show ?thesis by (simp add: trimmed_def trim_def)
qed

lemma last_collapse_ws:
  "s \<noteq> [] \<Longrightarrow> \<not> is_ws (last s) \<Longrightarrow> collapse_ws s \<noteq> [] \<and> last (collapse_ws s) = last s"
proof (induction s rule: collapse_ws.induct)
  case 1
  then show ?case by simp
next
  case (2 c cs)
  show ?case
  proof (cases "is_ws c")
    case True
    with 2(3,4) have cs: "cs \<noteq> []" "\<not> is_ws (last cs)" by (auto split: if_splits)
    then have d: "dropWhile is_ws cs \<noteq> [] \<and> last (dropWhile is_ws cs) = last cs"
      by (rule last_dropWhile_ws)
    with 2(1) [OF True] cs have "collapse_ws (dropWhile is_ws cs) \<noteq> []
        \<and> last (collapse_ws (dropWhile is_ws cs)) = last cs" by simp
    with True cs show ?thesis by simp
  next
    case False
    show ?thesis
    proof (cases "cs = []")
      case True
      with False show ?thesis by simp
    next
      case ne: False
      with 2(4) have "\<not> is_ws (last cs)" by simp
      with 2(2) [OF False ne] have "collapse_ws cs \<noteq> [] \<and> last (collapse_ws cs) = last cs" by simp
      with False ne show ?thesis by simp
    qed
  qed
qed

lemma trimmed_collapse: "trimmed s \<Longrightarrow> trimmed (collapse_ws s)"
proof (cases s)
  case Nil
  then show ?thesis by (simp add: trimmed_def)
next
  case (Cons c cs)
  assume "trimmed s"
  with Cons have h: "\<not> is_ws c" and l: "\<not> is_ws (last s)" by (auto simp: trimmed_def)
  have "hd (collapse_ws s) = c" using Cons h by simp
  moreover have "last (collapse_ws s) = last s" using last_collapse_ws [of s] Cons l by simp
  ultimately show ?thesis using h l by (simp add: trimmed_def)
qed

lemma trimmed_clean_line: "trimmed (clean_line raw)"
proof (cases raw rule: clean_line_cases)
  case plain
  then show ?thesis by (simp add: trimmed_collapse trimmed_trim)
next
  case (comma pre post)
  have t: "trimmed (pre @ [comma] @ post)"
    using comma(1) trimmed_collapse [OF trimmed_trim, of raw] by simp
  have h: "\<not> is_ws (hd (pre @ [comma] @ trim post))"
    using t by (cases pre) (auto simp: trimmed_def comma_not_ws)
  have l: "\<not> is_ws (last (pre @ [comma] @ trim post))"
    using trimmed_trim [of post] by (auto simp: trimmed_def comma_not_ws)
  show ?thesis using comma(2) h l by (simp add: trimmed_def)
qed

lemma trimmed_join_nl:
  "\<forall>l \<in> set ls. l \<noteq> [] \<and> trimmed l \<Longrightarrow> trimmed (join_nl ls)"
proof (induction ls rule: join_nl.induct)
  case 1
  show ?case by (simp add: trimmed_def)
next
  case (2 l)
  then show ?case by simp
next
  case (3 l m ls)
  then have ih: "trimmed (join_nl (m # ls))" by simp
  have ne: "join_nl (m # ls) \<noteq> []" using 3(2) by (cases ls) auto
  have l: "l \<noteq> []" "\<not> is_ws (hd l)" using 3(2) by (auto simp: trimmed_def)
  show ?case using ih ne l by (auto simp: trimmed_def)
qed

lemma cleanM3u_text_lines:
  "cleanM3u_text content =
     join_nl (filter (\<lambda>l. l \<noteq> []) (map clean_line (split_nl content))) @ [0x0A]"
proof -
  have "trimmed (join_nl (filter (\<lambda>l. l \<noteq> []) (map clean_line (split_nl content))))"
    by (rule trimmed_join_nl) (auto simp: trimmed_clean_line)
  then show ?thesis by (simp add: cleanM3u_text_def trim_id)
qed

lemma comma_collapse: "comma \<in> set (collapse_ws s) \<longleftrightarrow> comma \<in> set s"
proof -
  have "set (filter (\<lambda>c. \<not> is_ws c) (collapse_ws s)) = set (filter (\<lambda>c. \<not> is_ws c) s)"
    by (simp only: filter_collapse)
  then show ?thesis using comma_not_ws by auto
qed

lemma dropWhile_all:
  "list_all P g \<Longrightarrow> b = [] \<or> \<not> P (hd b) \<Longrightarrow> dropWhile P (g @ b) = b"
proof (induction g)
  case Nil
  then show ?case by (cases b) auto
next
  case (Cons a g)
  then show ?case by simp
qed

lemma collapse_word: "\<not> list_ex is_ws w \<Longrightarrow> collapse_ws (w @ b) = w @ collapse_ws b"
  by (induction w) auto

lemma collapse_gap:
  assumes "g \<noteq> []" and "list_all is_ws g" and "b = [] \<or> \<not> is_ws (hd b)"
  shows "collapse_ws (g @ b) = 0x20 # collapse_ws b"
proof -
  obtain c g' where g: "g = c # g'" using assms(1) by (cases g) auto
  with assms(2) have c: "is_ws c" and g': "list_all is_ws g'" by auto
  have "dropWhile is_ws (g' @ b) = b" using g' assms(3) by (rule dropWhile_all)
  with c show ?thesis by (simp add: g)
qed

lemma collapse_opt_gap_comma:
  assumes "list_all is_ws g"
  shows "collapse_ws (g @ comma # b) = (if g = [] then [] else [0x20]) @ comma # collapse_ws b"
proof (cases "g = []")
  case True
  then show ?thesis by (simp add: comma_not_ws)
next
  case False
  have "collapse_ws (g @ comma # b) = 0x20 # collapse_ws (comma # b)"
    using False assms by (rule collapse_gap) (simp add: comma_not_ws)
  with False show ?thesis by (simp add: comma_not_ws)
qed

lemma word_ends: "is_word w \<Longrightarrow> \<not> is_ws (hd w) \<and> \<not> is_ws (last w)"
  by (cases w) (auto simp: is_word_def list_ex_iff)

lemma with_gaps_hd:
  "are_words segs lastw \<Longrightarrow>
   with_gaps segs lastw @ t \<noteq> [] \<and> \<not> is_ws (hd (with_gaps segs lastw @ t))"
proof (cases segs)
  case Nil
  assume "are_words segs lastw"
  with Nil have "is_word lastw" by (simp add: are_words_def)
  then have "lastw \<noteq> [] \<and> \<not> is_ws (hd lastw)" using word_ends by (auto simp: is_word_def)
  with Nil show ?thesis by (simp add: with_gaps_def)
next
  case (Cons p ps)
  obtain w g where p: "p = (w, g)" by (cases p)
  assume "are_words segs lastw"
  with Cons p have "is_word w" by (simp add: are_words_def)
  then have "w \<noteq> [] \<and> \<not> is_ws (hd w)" using word_ends by (auto simp: is_word_def)
  with Cons p show ?thesis by (simp add: with_gaps_def)
qed

lemma with_gaps_last:
  "are_words segs lastw \<Longrightarrow> \<not> is_ws (last (with_gaps segs lastw))"
  using word_ends [of lastw] by (simp add: are_words_def with_gaps_def is_word_def)

lemma with_gaps_Cons:
  "with_gaps ((w, g) # segs) lastw = w @ g @ with_gaps segs lastw"
  "with_spaces ((w, g) # segs) lastw = w @ 0x20 # with_spaces segs lastw"
  by (simp_all add: with_gaps_def with_spaces_def)

lemma are_words_Cons:
  "are_words ((w, g) # segs) lastw \<longleftrightarrow> is_word w \<and> is_gap g \<and> are_words segs lastw"
  by (auto simp: are_words_def)

lemma collapse_with_gaps:
  "are_words segs lastw \<Longrightarrow>
   collapse_ws (with_gaps segs lastw @ t) = with_spaces segs lastw @ collapse_ws t"
proof (induction segs)
  case Nil
  then have "\<not> list_ex is_ws lastw" by (simp add: are_words_def is_word_def)
  then show ?case by (simp add: with_gaps_def with_spaces_def collapse_word)
next
  case (Cons p segs)
  obtain w g where p: "p = (w, g)" by (cases p)
  from Cons.prems p have w: "\<not> list_ex is_ws w" and g: "g \<noteq> []" "list_all is_ws g"
    and rest: "are_words segs lastw"
    by (auto simp: are_words_Cons is_word_def is_gap_def)
  have h: "with_gaps segs lastw @ t = [] \<or> \<not> is_ws (hd (with_gaps segs lastw @ t))"
    using with_gaps_hd [OF rest, of t] by simp
  have "collapse_ws (with_gaps (p # segs) lastw @ t)
      = w @ collapse_ws (g @ (with_gaps segs lastw @ t))"
    using w by (simp add: p with_gaps_Cons collapse_word)
  also have "\<dots> = w @ 0x20 # collapse_ws (with_gaps segs lastw @ t)"
    using collapse_gap [OF g h] by simp
  also have "\<dots> = with_spaces (p # segs) lastw @ collapse_ws t"
    using Cons.IH [OF rest] by (simp add: p with_gaps_Cons)
  finally show ?case .
qed

lemma collapse_with_gaps_only:
  "are_words segs lastw \<Longrightarrow> collapse_ws (with_gaps segs lastw) = with_spaces segs lastw"
  using collapse_with_gaps [of segs lastw "[]"] by simp

lemma trim_lead_trail:
  assumes "list_all is_ws lead" and "list_all is_ws trail"
    and "x \<noteq> []" and "\<not> is_ws (hd x)" and "\<not> is_ws (last x)"
  shows "trim (lead @ x @ trail) = x"
proof -
  have a: "dropWhile is_ws (lead @ x @ trail) = x @ trail"
    using assms(1,3,4) by (intro dropWhile_all) auto
  have r: "list_all is_ws (rev trail)" using assms(2) by (simp add: list_all_iff)
  have "hd (rev x) = last x" using assms(3) by (simp add: hd_rev)
  then have b: "dropWhile is_ws (rev trail @ rev x) = rev x"
    using r assms(3,5) by (intro dropWhile_all) auto
  show ?thesis by (simp add: trim_def a b)
qed

lemma trim_all_ws: "list_all is_ws s \<Longrightarrow> trim s = []"
proof -
  assume "list_all is_ws s"
  then have d: "dropWhile is_ws s = []" by (simp add: list_all_iff)
  show ?thesis unfolding trim_def d by simp
qed

lemma with_spaces_trimmed:
  assumes "are_words segs lastw"
  shows "with_spaces segs lastw \<noteq> [] \<and> \<not> is_ws (hd (with_spaces segs lastw))
     \<and> \<not> is_ws (last (with_spaces segs lastw))"
proof -
  have l: "is_word lastw" using assms by (simp add: are_words_def)
  then have "\<not> is_ws (last (with_spaces segs lastw))" and ne: "with_spaces segs lastw \<noteq> []"
    using word_ends [of lastw] by (simp_all add: with_spaces_def is_word_def)
  moreover have "\<not> is_ws (hd (with_spaces segs lastw))"
  proof (cases segs)
    case Nil
    then show ?thesis using word_ends [OF l] by (simp add: with_spaces_def)
  next
    case (Cons p ps)
    obtain w g where p: "p = (w, g)" by (cases p)
    with Cons assms have "is_word w" by (simp add: are_words_def)
    then have "w \<noteq> [] \<and> \<not> is_ws (hd w)" using word_ends by (auto simp: is_word_def)
    with Cons p show ?thesis by (simp add: with_spaces_def)
  qed
  ultimately show ?thesis by blast
qed


lemma trim_with_gaps:
  assumes "t = [] \<or> \<not> is_ws (last t)"
    and "list_all is_ws lead" and "list_all is_ws trail" and "are_words segs lastw"
  shows "trim (lead @ (with_gaps segs lastw @ t) @ trail) = with_gaps segs lastw @ t"
proof -
  let ?x = "with_gaps segs lastw @ t"
  have h: "?x \<noteq> [] \<and> \<not> is_ws (hd ?x)" using assms(4) by (rule with_gaps_hd)
  have l: "\<not> is_ws (last ?x)"
    using assms(1) with_gaps_last [OF assms(4)] h by (cases "t = []") auto
  show ?thesis using assms(2,3) h l by (intro trim_lead_trail) auto
qed

lemma clean_line_plain_words:
  assumes "list_all is_ws lead" and "list_all is_ws trail" and "are_words segs lastw"
    and "\<not> startsWith (with_gaps segs lastw) (str ''#EXTINF'') \<or> comma \<notin> set (with_gaps segs lastw)"
  shows "clean_line (lead @ with_gaps segs lastw @ trail) = with_spaces segs lastw"
proof -
  let ?raw = "lead @ with_gaps segs lastw @ trail"
  have t: "trim ?raw = with_gaps segs lastw"
    using trim_with_gaps [OF _ assms(1,2,3), of "[]"] by simp
  have "clean_line ?raw = collapse_ws (trim ?raw)"
    using assms(4) clean_line_other [of ?raw] clean_line_no_comma [of ?raw]
      comma_collapse [of "trim ?raw"] unfolding t by blast
  then show ?thesis by (simp add: t collapse_with_gaps_only [OF assms(3)])
qed

lemma clean_line_extinf_words:
  assumes "list_all is_ws lead" and "list_all is_ws trail" and "are_words segs lastw"
    and "startsWith (with_gaps segs lastw) (str ''#EXTINF'')"
    and "comma \<notin> set (with_gaps segs lastw)"
    and "list_all is_ws g1" and "list_all is_ws g2" and "are_words tsegs tlast"
  shows "clean_line (lead @ with_gaps segs lastw @ g1 @ [comma] @ g2 @ with_gaps tsegs tlast @ trail)
     = with_spaces segs lastw @ (if g1 = [] then [] else [0x20]) @ [comma] @ with_spaces tsegs tlast"
proof -
  let ?A = "with_gaps segs lastw" and ?T = "with_gaps tsegs tlast"
  let ?t = "g1 @ [comma] @ g2 @ ?T"
  let ?raw = "lead @ ?A @ g1 @ [comma] @ g2 @ ?T @ trail"
  let ?pre = "with_spaces segs lastw @ (if g1 = [] then [] else [0x20])"
  let ?post = "(if g2 = [] then [] else [0x20]) @ with_spaces tsegs tlast"
  have lt: "\<not> is_ws (last ?t)" using with_gaps_last [OF assms(8)] with_gaps_hd [OF assms(8), of "[]"]
    by simp
  have t: "trim ?raw = ?A @ ?t"
    using trim_with_gaps [OF _ assms(1,2,3), of ?t] lt by simp
  have s: "startsWith (trim ?raw) (str ''#EXTINF'')"
    using assms(4) unfolding t startsWith_iff by auto
  have hT: "?T = [] \<or> \<not> is_ws (hd ?T)" using with_gaps_hd [OF assms(8), of "[]"] by simp
  have cT: "collapse_ws (g2 @ ?T) = ?post"
  proof (cases "g2 = []")
    case True
    then show ?thesis by (simp add: collapse_with_gaps_only [OF assms(8)])
  next
    case False
    then show ?thesis
      using collapse_gap [OF False assms(7) hT] by (simp add: collapse_with_gaps_only [OF assms(8)])
  qed
  have c: "collapse_ws (trim ?raw) = ?pre @ [comma] @ ?post"
    unfolding t using collapse_with_gaps [OF assms(3), of ?t] collapse_opt_gap_comma [OF assms(6), of "g2 @ ?T"] cT
    by simp
  have "comma \<notin> set (with_spaces segs lastw)"
    using assms(5) comma_collapse [of ?A] by (simp add: collapse_with_gaps_only [OF assms(3)])
  then have n: "comma \<notin> set ?pre" by simp
  have tp: "trim ?post = with_spaces tsegs tlast"
    using trim_lead_trail [of "if g2 = [] then [] else [0x20]" "[]" "with_spaces tsegs tlast"]
      with_spaces_trimmed [OF assms(8)] by (simp add: space_ws)
  show ?thesis using clean_line_comma [OF s c n] tp by simp
qed

lemma clean_line_extinf_no_title:
  assumes "list_all is_ws lead" and "list_all is_ws trail" and "are_words segs lastw"
    and "startsWith (with_gaps segs lastw) (str ''#EXTINF'')"
    and "comma \<notin> set (with_gaps segs lastw)"
    and "list_all is_ws g1"
  shows "clean_line (lead @ with_gaps segs lastw @ g1 @ [comma] @ trail)
     = with_spaces segs lastw @ (if g1 = [] then [] else [0x20]) @ [comma]"
proof -
  let ?A = "with_gaps segs lastw"
  let ?t = "g1 @ [comma]"
  let ?raw = "lead @ ?A @ g1 @ [comma] @ trail"
  let ?pre = "with_spaces segs lastw @ (if g1 = [] then [] else [0x20])"
  have t: "trim ?raw = ?A @ ?t"
    using trim_with_gaps [OF _ assms(1,2,3), of ?t] by (simp add: comma_not_ws)
  have s: "startsWith (trim ?raw) (str ''#EXTINF'')"
    using assms(4) unfolding t startsWith_iff by auto
  have c: "collapse_ws (trim ?raw) = ?pre @ [comma] @ []"
    unfolding t using collapse_with_gaps [OF assms(3), of ?t] collapse_opt_gap_comma [OF assms(6), of "[]"]
    by simp
  have "comma \<notin> set (with_spaces segs lastw)"
    using assms(5) comma_collapse [of ?A] by (simp add: collapse_with_gaps_only [OF assms(3)])
  then have n: "comma \<notin> set ?pre" by simp
  show ?thesis using clean_line_comma [OF s c n] by (simp add: trim_def)
qed

lemma clean_line_all_ws: "list_all is_ws raw \<Longrightarrow> clean_line raw = []"
  by (simp add: clean_line_def trim_all_ws startsWith_def Let_def)

lemma cleanM3u_writes:
  "fs filePath = File content \<Longrightarrow>
   cleanM3u fs filePath =
     Inr (fs(filePath := File (join_nl (filter (\<lambda>l. l \<noteq> []) (map clean_line (split_nl content))) @ [0x0A])))"
  by (simp add: cleanM3u_def cleanM3u_text_lines)

text \<open>
  C9. cleanM3u writes back the cleaned non-empty lines of the file, joined by line feeds, with
  one line feed at the end. A cleaned line is described by the words of the line (its maximal
  runs of characters other than white space). A line of white space only is cleaned to the
  empty line. In a line that does not begin with \<^verbatim>\<open>#EXTINF\<close>, or has no comma, the white space
  before the first word and after the last is removed and every gap between two words becomes
  exactly one space, whatever white space characters the gap holds. A line that begins with
  \<^verbatim>\<open>#EXTINF\<close> and has a comma is split at its first comma: before it every gap becomes one
  space (also the gap right before the comma, if there is one), the gap after the comma is
  removed, so that the title follows the comma directly, and in the title every gap becomes
  one space. Every line is of one of these forms. Consequently in every cleaned line each
  white space character is a space with no white space next to it, and the other characters
  are those of the line, in order. On \<^verbatim>\<open>#EXTINF:-1,Channel, The Show\<close> the formatter keeps
  \<^verbatim>\<open>Channel, The Show\<close> after its split, where the parser takes the title \<^verbatim>\<open>The Show\<close>.
\<close>

theorem cleanM3u_normalizes:
  "(fs filePath = File content \<longrightarrow>
      cleanM3u fs filePath =
        Inr (fs(filePath := File (join_nl (filter (\<lambda>l. l \<noteq> [])
               (map clean_line (split_nl content))) @ [0x0A]))))
   \<and> (list_all is_ws raw \<longrightarrow> clean_line raw = [])
   \<and> (list_all is_ws lead \<and> list_all is_ws trail \<and> are_words segs lastw
        \<and> (\<not> startsWith (with_gaps segs lastw) (str ''#EXTINF'')
             \<or> comma \<notin> set (with_gaps segs lastw))
        \<longrightarrow> clean_line (lead @ with_gaps segs lastw @ trail) = with_spaces segs lastw)
   \<and> (list_all is_ws lead \<and> list_all is_ws trail \<and> are_words segs lastw
        \<and> startsWith (with_gaps segs lastw) (str ''#EXTINF'')
        \<and> comma \<notin> set (with_gaps segs lastw)
        \<and> list_all is_ws g1 \<and> list_all is_ws g2 \<and> are_words tsegs tlast
        \<longrightarrow> clean_line (lead @ with_gaps segs lastw @ g1 @ [comma] @ g2
                          @ with_gaps tsegs tlast @ trail)
            = with_spaces segs lastw @ (if g1 = [] then [] else [0x20]) @ [comma]
                @ with_spaces tsegs tlast)
   \<and> (list_all is_ws lead \<and> list_all is_ws trail \<and> are_words segs lastw
        \<and> startsWith (with_gaps segs lastw) (str ''#EXTINF'')
        \<and> comma \<notin> set (with_gaps segs lastw) \<and> list_all is_ws g1
        \<longrightarrow> clean_line (lead @ with_gaps segs lastw @ g1 @ [comma] @ trail)
            = with_spaces segs lastw @ (if g1 = [] then [] else [0x20]) @ [comma])
   \<and> single_spaced (clean_line raw)
   \<and> filter (\<lambda>c. \<not> is_ws c) (clean_line raw) = filter (\<lambda>c. \<not> is_ws c) raw
   \<and> clean_line (str ''#EXTINF:-1,  Channel, The Show'') = str ''#EXTINF:-1,Channel, The Show''
   \<and> ext_title (parse_extinf (str ''#EXTINF:-1,Channel, The Show'')) = str ''The Show''"
proof (intro conjI impI)
  assume "fs filePath = File content"
  then show "cleanM3u fs filePath =
        Inr (fs(filePath := File (join_nl (filter (\<lambda>l. l \<noteq> [])
               (map clean_line (split_nl content))) @ [0x0A])))"
    by (rule cleanM3u_writes)
next
  assume "list_all is_ws raw"
  then show "clean_line raw = []" by (rule clean_line_all_ws)
next
  assume "list_all is_ws lead \<and> list_all is_ws trail \<and> are_words segs lastw
        \<and> (\<not> startsWith (with_gaps segs lastw) (str ''#EXTINF'')
             \<or> comma \<notin> set (with_gaps segs lastw))"
  then show "clean_line (lead @ with_gaps segs lastw @ trail) = with_spaces segs lastw"
    using clean_line_plain_words [of lead trail segs lastw] by blast
next
  assume "list_all is_ws lead \<and> list_all is_ws trail \<and> are_words segs lastw
        \<and> startsWith (with_gaps segs lastw) (str ''#EXTINF'')
        \<and> comma \<notin> set (with_gaps segs lastw)
        \<and> list_all is_ws g1 \<and> list_all is_ws g2 \<and> are_words tsegs tlast"
  then show "clean_line (lead @ with_gaps segs lastw @ g1 @ [comma] @ g2
                          @ with_gaps tsegs tlast @ trail)
            = with_spaces segs lastw @ (if g1 = [] then [] else [0x20]) @ [comma]
                @ with_spaces tsegs tlast"
    using clean_line_extinf_words [of lead trail segs lastw g1 g2 tsegs tlast] by blast
next
  assume "list_all is_ws lead \<and> list_all is_ws trail \<and> are_words segs lastw
        \<and> startsWith (with_gaps segs lastw) (str ''#EXTINF'')
        \<and> comma \<notin> set (with_gaps segs lastw) \<and> list_all is_ws g1"
  then show "clean_line (lead @ with_gaps segs lastw @ g1 @ [comma] @ trail)
            = with_spaces segs lastw @ (if g1 = [] then [] else [0x20]) @ [comma]"
    using clean_line_extinf_no_title [of lead trail segs lastw g1] by blast
next
  show "single_spaced (clean_line raw)" by (rule single_spaced_clean_line)
  show "filter (\<lambda>c. \<not> is_ws c) (clean_line raw) = filter (\<lambda>c. \<not> is_ws c) raw"
    by (rule filter_clean_line)
  show "clean_line (str ''#EXTINF:-1,  Channel, The Show'') = str ''#EXTINF:-1,Channel, The Show''"
    by code_simp
  show "ext_title (parse_extinf (str ''#EXTINF:-1,Channel, The Show'')) = str ''The Show''"
    by code_simp
qed

theorem cleanM3u_normalizes_witness:
  "clean_line (str ''  #EXTINF:-1'' @ [0x09, 0x20] @ str ''tvg-id=x ,   Channel,  The'' @ [0xA0, 0x09]
       @ str ''Show  '')
     = str ''#EXTINF:-1 tvg-id=x ,Channel, The Show''
   \<and> clean_line (str ''http://a/b'' @ [0x09, 0x09] @ str ''c  '') = str ''http://a/b c''
   \<and> clean_line (str ''#EXTINF:-1 , '') = str ''#EXTINF:-1 ,''
   \<and> clean_line [0x20, 0x09, 0x0D] = []
   \<and> cleanM3u (\<lambda>p. File (str ''  #EXTM3U '' @ [0x0D, 0x0A, 0x0A] @ str '' #EXTINF:-1  a,  b ''))
        (str ''StreamOn-T1.m3u'')
     = Inr ((\<lambda>p. File (str ''  #EXTM3U '' @ [0x0D, 0x0A, 0x0A] @ str '' #EXTINF:-1  a,  b ''))
              (str ''StreamOn-T1.m3u'' := File (str ''#EXTM3U'' @ [0x0A] @ str ''#EXTINF:-1 a,b'' @ [0x0A])))"
proof -
  let ?fs = "\<lambda>p::jstring. File (str ''  #EXTM3U '' @ [0x0D, 0x0A, 0x0A] @ str '' #EXTINF:-1  a,  b '')"
  note ev = are_words_def is_word_def is_gap_def is_ws_def with_gaps_def with_spaces_def
    startsWith_def
  have a: "clean_line (str ''  #EXTINF:-1'' @ [0x09, 0x20] @ str ''tvg-id=x ,   Channel,  The''
       @ [0xA0, 0x09] @ str ''Show  '')
     = str ''#EXTINF:-1 tvg-id=x ,Channel, The Show''"
    using cleanM3u_normalizes [where lead = "str ''  ''" and trail = "str ''  ''"
        and segs = "[(str ''#EXTINF:-1'', [0x09, 0x20])]" and lastw = "str ''tvg-id=x''"
        and ?g1.0 = "str '' ''" and ?g2.0 = "str ''   ''"
        and tsegs = "[(str ''Channel,'', str ''  ''), (str ''The'', [0xA0, 0x09])]"
        and tlast = "str ''Show''"]
    by (simp add: ev)
  have b: "clean_line (str ''http://a/b'' @ [0x09, 0x09] @ str ''c  '') = str ''http://a/b c''"
    using cleanM3u_normalizes [where lead = "[]" and trail = "str ''  ''"
        and segs = "[(str ''http://a/b'', [0x09, 0x09])]" and lastw = "str ''c''"]
    by (simp add: ev)
  have c: "clean_line (str ''#EXTINF:-1 , '') = str ''#EXTINF:-1 ,''"
    using cleanM3u_normalizes [where lead = "[]" and trail = "str '' ''"
        and segs = "[]" and lastw = "str ''#EXTINF:-1''" and ?g1.0 = "str '' ''"]
    by (simp add: ev)
  have d: "clean_line [0x20, 0x09, 0x0D] = []"
    using cleanM3u_normalizes [where raw = "[0x20, 0x09, 0x0D]"]
    by (simp add: ev)
  have j: "join_nl (filter (\<lambda>l. l \<noteq> []) (map clean_line
        (split_nl (str ''  #EXTM3U '' @ [0x0D, 0x0A, 0x0A] @ str '' #EXTINF:-1  a,  b '')))) @ [0x0A]
      = str ''#EXTM3U'' @ [0x0A] @ str ''#EXTINF:-1 a,b'' @ [0x0A]"
    by code_simp
  have e: "cleanM3u ?fs (str ''StreamOn-T1.m3u'')
     = Inr (?fs (str ''StreamOn-T1.m3u'' := File (str ''#EXTM3U'' @ [0x0A] @ str ''#EXTINF:-1 a,b'' @ [0x0A])))"
    using cleanM3u_normalizes [where fs = ?fs and filePath = "str ''StreamOn-T1.m3u''"
        and content = "str ''  #EXTM3U '' @ [0x0D, 0x0A, 0x0A] @ str '' #EXTINF:-1  a,  b ''"]
    unfolding j by blast
  from a b c d e show ?thesis by blast
qed

end
